theory Spec2Isabelle
  imports Complex_Main "HOL-Library.Word"
begin

section \<open>Machine integers, floats, vectors and undefined behaviour\<close>

text \<open>
  \<^verbatim>\<open>unsigned long\<close> is modelled as a 64-bit word (the LP64 data model of Linux and
  macOS): \<open>+\<close>, \<open>-\<close> and \<open>*\<close> wrap around, \<open><\<close> compares unsigned values and
  \<open>div\<close> is unsigned division.

  The packer only copies floats and passes them through \<^verbatim>\<open>SanitizeFloat\<close>, so the float
  type is a type variable \<open>'f\<close> and \<^verbatim>\<open>SanitizeFloat\<close> (declared in \<^verbatim>\<open>MathUtils.h\<close>, which
  is not part of the sources at hand) is a parameter of every function that calls it.

  A read outside a \<^verbatim>\<open>std::vector\<close> is undefined behaviour in C++; the model stops there
  with \<open>OutOfRange\<close>. An integer division by zero stops with \<open>DivideByZero\<close>. A
  \<^verbatim>\<open>push_back\<close> for which the vector cannot grow throws (\<^verbatim>\<open>std::bad_alloc\<close> or
  \<^verbatim>\<open>std::length_error\<close>); the model stops there with \<open>BadAlloc\<close>.
\<close>

type_synonym ulong = "64 word"

datatype error = OutOfRange | DivideByZero | BadAlloc

text \<open>
  How much memory the machine has is not modelled. The output vector is given the room
  for the largest texture whose texels an \<^verbatim>\<open>unsigned long\<close> can count, \<open>2\<^sup>6\<^sup>4 - 1\<close>
  triples, and no more. That is beyond what any implementation of \<^verbatim>\<open>std::vector\<close>
  provides, so a \<^verbatim>\<open>push_back\<close> that fails in the model fails on every machine, and a
  loop that pushes without end stops with \<open>BadAlloc\<close>; a result of the model is the
  result of the code on a machine that has the memory for it.
\<close>

definition max_size :: nat where
  "max_size = 3 * (2 ^ 64 - 1)"

text \<open>\<^verbatim>\<open>chn.push_back(v)\<close>.\<close>

definition push_back :: "'f list \<Rightarrow> 'f \<Rightarrow> error + 'f list" where
  "push_back chn v = (if length chn < max_size then Inr (chn @ [v]) else Inl BadAlloc)"

section \<open>The texture packer: \<^verbatim>\<open>PadLutChannels\<close> (Lut1DOpGPU.cpp)\<close>

text \<open>\<^verbatim>\<open>channel[k]\<close>: one read of the input vector.\<close>

definition channel_at :: "'f list \<Rightarrow> ulong \<Rightarrow> error + 'f" where
  "channel_at channel k =
     (if unat k < length channel then Inr (channel ! unat k) else Inl OutOfRange)"

text \<open>
  \<^verbatim>\<open>std::back_inserter(chn)\<close> fed with the elements \<open>vs\<close>, one after the other, each
  passed through \<^verbatim>\<open>SanitizeFloat\<close>. The range-based \<^verbatim>\<open>for\<close> loop of the single-row case
  is the same with \<open>vs\<close> the whole input.
\<close>

fun back_inserter :: "('f \<Rightarrow> 'f) \<Rightarrow> 'f list \<Rightarrow> 'f list \<Rightarrow> error + 'f list" where
  "back_inserter SanitizeFloat [] chn = Inr chn"
| "back_inserter SanitizeFloat (v # vs) chn =
     (case push_back chn (SanitizeFloat v) of
        Inl e \<Rightarrow> Inl e
      | Inr chn' \<Rightarrow> back_inserter SanitizeFloat vs chn')"

text \<open>
  \<^verbatim>\<open>std::transform(&channel[a], &channel[b], std::back_inserter(chn), ...)\<close>: the
  elements \<open>a, a + 1, ...\<close> up to but excluding \<open>b\<close> are read and pushed in turn.
  Nothing is read when both ends coincide. When \<open>b\<close> lies before \<open>a\<close> or beyond the
  end of the vector, the iteration pushes what there is from \<open>a\<close> on and then runs
  off the vector.
\<close>

definition transform_range ::
  "('f \<Rightarrow> 'f) \<Rightarrow> 'f list \<Rightarrow> ulong \<Rightarrow> ulong \<Rightarrow> 'f list \<Rightarrow> error + 'f list" where
  "transform_range SanitizeFloat channel a b chn =
     (if a = b then Inr chn
      else if a < b \<and> unat b \<le> length channel
        then back_inserter SanitizeFloat (take (unat b - unat a) (drop (unat a) channel)) chn
      else (case back_inserter SanitizeFloat (drop (unat a) channel) chn of
              Inl e \<Rightarrow> Inl e
            | Inr chn' \<Rightarrow> Inl OutOfRange))"

text \<open>
  The three statements \<^verbatim>\<open>chn.push_back(SanitizeFloat(channel[3 * k + c]))\<close> for
  \<open>c = 0, 1, 2\<close>; the index is computed in \<^verbatim>\<open>unsigned long\<close>.
\<close>

definition push_triple ::
  "('f \<Rightarrow> 'f) \<Rightarrow> 'f list \<Rightarrow> ulong \<Rightarrow> 'f list \<Rightarrow> error + 'f list" where
  "push_triple SanitizeFloat channel k chn =
     (case channel_at channel (3 * k + 0) of
        Inl e \<Rightarrow> Inl e
      | Inr v0 \<Rightarrow>
     (case push_back chn (SanitizeFloat v0) of
        Inl e \<Rightarrow> Inl e
      | Inr chn0 \<Rightarrow>
     (case channel_at channel (3 * k + 1) of
        Inl e \<Rightarrow> Inl e
      | Inr v1 \<Rightarrow>
     (case push_back chn0 (SanitizeFloat v1) of
        Inl e \<Rightarrow> Inl e
      | Inr chn1 \<Rightarrow>
     (case channel_at channel (3 * k + 2) of
        Inl e \<Rightarrow> Inl e
      | Inr v2 \<Rightarrow> push_back chn1 (SanitizeFloat v2))))))"

text \<open>
  The stepped loop
  \<^verbatim>\<open>for (unsigned long i = 0; i < (currWidth - step); i += step)\<close>.
  Its state is \<open>i\<close>, \<open>leftover\<close> and the output vector \<open>chn\<close>. The index \<open>i\<close> may
  stand still (\<open>step = 0\<close>) or wrap around, so the recursion is not on \<open>i\<close> and the
  function is declared partial: \<open>None\<close> is "does not return". What the loop returns
  is proved where it is claimed.
\<close>

partial_function (option) pad_loop ::
  "('f \<Rightarrow> 'f) \<Rightarrow> 'f list \<Rightarrow> ulong \<Rightarrow> ulong \<Rightarrow> ulong \<Rightarrow> ulong \<Rightarrow> 'f list
     \<Rightarrow> (error + ulong \<times> 'f list) option" where
  "pad_loop SanitizeFloat channel currWidth step i leftover chn =
     (if i < currWidth - step then
        (case transform_range SanitizeFloat channel (3 * i) (3 * (i + step)) chn of
           Inl e \<Rightarrow> Some (Inl e)
         | Inr chn1 \<Rightarrow>
        (case push_triple SanitizeFloat channel (i + step) chn1 of
           Inl e \<Rightarrow> Some (Inl e)
         | Inr chn' \<Rightarrow>
             pad_loop SanitizeFloat channel currWidth step (i + step) (leftover - step) chn'))
      else Some (Inr (leftover, chn)))"

text \<open>
  The final loop \<^verbatim>\<open>for (idx = 0; idx < missingEntries; ++idx)\<close>, by the number of
  iterations that remain.
\<close>

fun pad_tail ::
  "('f \<Rightarrow> 'f) \<Rightarrow> 'f list \<Rightarrow> ulong \<Rightarrow> nat \<Rightarrow> 'f list \<Rightarrow> error + 'f list" where
  "pad_tail SanitizeFloat channel currWidth 0 chn = Inr chn"
| "pad_tail SanitizeFloat channel currWidth (Suc n) chn =
     (case push_triple SanitizeFloat channel (currWidth - 1) chn of
        Inl e \<Rightarrow> Inl e
      | Inr chn' \<Rightarrow> pad_tail SanitizeFloat channel currWidth n chn')"

text \<open>
  The \<^verbatim>\<open>if (height>1) ... else ...\<close> statement: the rows written before the final
  padding. \<open>chn\<close> is the output vector as the caller passes it in.
\<close>

definition pad_rows ::
  "('f \<Rightarrow> 'f) \<Rightarrow> ulong \<Rightarrow> ulong \<Rightarrow> 'f list \<Rightarrow> 'f list \<Rightarrow> (error + 'f list) option" where
  "pad_rows SanitizeFloat width height channel chn =
     (let currWidth = (word_of_nat (length channel div 3) :: ulong) in
      if height > 1 then
        (case pad_loop SanitizeFloat channel currWidth (width - 1) 0 currWidth chn of
           None \<Rightarrow> None
         | Some (Inl e) \<Rightarrow> Some (Inl e)
         | Some (Inr (leftover, chn')) \<Rightarrow>
             if leftover > 0 then
               (case transform_range SanitizeFloat channel
                       (3 * (currWidth - leftover)) (3 * (currWidth - 1)) chn' of
                  Inl e \<Rightarrow> Some (Inl e)
                | Inr chn1 \<Rightarrow> Some (push_triple SanitizeFloat channel (currWidth - 1) chn1))
             else Some (Inr chn'))
      else Some (back_inserter SanitizeFloat channel chn))"

definition PadLutChannels ::
  "('f \<Rightarrow> 'f) \<Rightarrow> ulong \<Rightarrow> ulong \<Rightarrow> 'f list \<Rightarrow> 'f list \<Rightarrow> (error + 'f list) option" where
  "PadLutChannels SanitizeFloat width height channel chn =
     (let currWidth = (word_of_nat (length channel div 3) :: ulong) in
      case pad_rows SanitizeFloat width height channel chn of
        None \<Rightarrow> None
      | Some (Inl e) \<Rightarrow> Some (Inl e)
      | Some (Inr chn') \<Rightarrow>
          (let missingEntries = width * height - word_of_nat (length chn' div 3) in
           Some (pad_tail SanitizeFloat channel currWidth (unat missingEntries) chn')))"

text \<open>
  Vocabulary for the statements below: the RGB triple at texel position \<open>p\<close> of a flat
  buffer, and the channel filled by the unit tests (\<^verbatim>\<open>channel[3*idx] = float(idx)\<close>,
  \<^verbatim>\<open>+ 0.1f\<close>, \<^verbatim>\<open>+ 0.2f\<close>), with the floats written as the numbers they denote.
\<close>

definition texel :: "'f list \<Rightarrow> nat \<Rightarrow> 'f list" where
  "texel buf p = take 3 (drop (3 * p) buf)"

definition test_triple :: "nat \<Rightarrow> real list" where
  "test_triple idx = [real idx, real idx + 1 / 10, real idx + 2 / 10]"

definition test_channel :: "nat \<Rightarrow> real list" where
  "test_channel n = concat (map test_triple [0..<n])"

section \<open>The shader emitter: \<^verbatim>\<open>GetLut1DGPUShaderProgram\<close> (Lut1DOpGPU.cpp)\<close>

text \<open>
  The emitter computes the texture geometry, packs the texture and writes shader text.
  The shader description and the LUT data are classes declared outside the sources at
  hand; what the function reads from them is passed as arguments
  (\<^verbatim>\<open>getTextureMaxWidth()\<close>, \<^verbatim>\<open>getArray().getLength()\<close>, \<^verbatim>\<open>getArray().getValues()\<close>,
  \<^verbatim>\<open>isInputHalfDomain()\<close>), and what it hands to them is returned: the texture passed
  to \<^verbatim>\<open>addTexture\<close> and the addressing code it emits, recorded with the integers that
  the text embeds as \<^verbatim>\<open>float(...)\<close> constants. The sink's own methods are taken not to
  fail. The hue adjustment text does not depend on the LUT length and is left out.
  \<^verbatim>\<open>values.reserve(width*height*3)\<close> changes the capacity of the vector and not its
  contents, and it asks for fewer than \<open>2\<^sup>6\<^sup>4\<close> elements, which is within the room the
  model gives a vector; it has no counterpart below.
\<close>

datatype addressing =
    HalfDomainPos ulong ulong ulong
      \<comment> \<open>\<^verbatim>\<open>computePos\<close> of the half domain: \<open>width - 1\<close>, \<open>width\<close>, \<open>height\<close>\<close>
  | FloatDomainPos ulong ulong ulong ulong
      \<comment> \<open>\<^verbatim>\<open>computePos\<close> of the float domain: \<open>length - 1\<close>, \<open>width - 1\<close>, \<open>width\<close>, \<open>height\<close>\<close>
  | SingleRowCoords ulong
      \<comment> \<open>the 1D coordinates \<^verbatim>\<open>(rgb * (dim - 1) + 0.5) / dim\<close>: \<open>length\<close>\<close>

record 'f lut1d_program =
  texture_width :: ulong
  texture_height :: ulong
  texture_values :: "'f list"
  addressing_code :: addressing

definition GetLut1DGPUShaderProgram ::
  "('f \<Rightarrow> 'f) \<Rightarrow> ulong \<Rightarrow> ulong \<Rightarrow> 'f list \<Rightarrow> bool \<Rightarrow> (error + 'f lut1d_program) option" where
  "GetLut1DGPUShaderProgram SanitizeFloat defaultMaxWidth lutLength lutValues isInputHalfDomain =
     (if defaultMaxWidth = 0 then Some (Inl DivideByZero)
      else
        (let width = min lutLength defaultMaxWidth;
             height = lutLength div defaultMaxWidth + 1
         in case PadLutChannels SanitizeFloat width height lutValues [] of
              None \<Rightarrow> None
            | Some (Inl e) \<Rightarrow> Some (Inl e)
            | Some (Inr values) \<Rightarrow>
                Some (Inr \<lparr> texture_width = width,
                            texture_height = height,
                            texture_values = values,
                            addressing_code =
                              (if height > 1 \<or> isInputHalfDomain then
                                 (if isInputHalfDomain
                                  then HalfDomainPos (width - 1) width height
                                  else FloatDomainPos (lutLength - 1) (width - 1) width height)
                               else SingleRowCoords lutLength) \<rparr>)))"

subsection \<open>What the emitted addressing code computes\<close>

text \<open>
  The emitted \<^verbatim>\<open>computePos\<close> is a shader function. Its meaning is given here in exact
  arithmetic: a finite shader float is the real number it denotes, \<^verbatim>\<open>abs\<close>, \<^verbatim>\<open>min\<close>,
  \<^verbatim>\<open>floor\<close>, \<^verbatim>\<open>log2\<close>, \<^verbatim>\<open>pow\<close> and \<^verbatim>\<open>dot\<close> are the mathematical functions, and rounding
  is not modelled. The built-ins follow the shading language specification:
  \<^verbatim>\<open>step(edge, x)\<close> is \<open>0\<close> when \<open>x < edge\<close> and \<open>1\<close> otherwise, and \<^verbatim>\<open>int(x)\<close> drops the
  fractional part. \<^verbatim>\<open>HALF_NRM_MIN\<close> and \<^verbatim>\<open>HALF_MAX\<close> come from the half-float header
  (the smallest positive normalized half \<^verbatim>\<open>2^-14\<close> and the largest half \<open>65504\<close>);
  \<^verbatim>\<open>HALF_DENRM_MAX\<close> is the float literal of the source, \<^verbatim>\<open>2^-14 - 2^-24\<close> as its
  comment says.
\<close>

definition float_of_ulong :: "ulong \<Rightarrow> real" where
  "float_of_ulong n = real (unat n)"

definition HALF_NRM_MIN :: real where
  "HALF_NRM_MIN = 1 / 16384"

definition HALF_MAX :: real where
  "HALF_MAX = 65504"

definition HALF_DENRM_MAX :: real where
  "HALF_DENRM_MAX = 1 / 16384 - 1 / 16777216"

definition NEG_MIN_EXP :: real where
  "NEG_MIN_EXP = 15"

definition EXP_SCALE :: real where
  "EXP_SCALE = 1024"

definition glsl_step :: "real \<Rightarrow> real \<Rightarrow> real" where
  "glsl_step edge x = (if x < edge then 0 else 1)"

definition glsl_int :: "real \<Rightarrow> int" where
  "glsl_int x = (if 0 \<le> x then \<lfloor>x\<rfloor> else \<lceil>x\<rceil>)"

text \<open>The term \<^verbatim>\<open>step(f, 0.0) * 32768.0\<close> that is added to \<^verbatim>\<open>dep\<close>.\<close>

definition sign_offset :: "real \<Rightarrow> real" where
  "sign_offset f = glsl_step f 0 * 32768"

text \<open>
  The half-domain body up to "At this point 'dep' contains the raw half", for an
  input that is a number. In the normalized branch \<^verbatim>\<open>fComp\<close> starts as \<open>(15, 15, 15)\<close>,
  its \<open>x\<close> and \<open>y\<close> are overwritten, and \<^verbatim>\<open>dot(fComp, scale)\<close> sums the three
  products; \<open>normalized_dep\<close> is that branch from \<^verbatim>\<open>absarr\<close> on.
\<close>

definition normalized_dep :: "real \<Rightarrow> real" where
  "normalized_dep absarr =
     (let fComp_x = of_int \<lfloor>log 2 absarr\<rfloor>;
          lower = 2 powr fComp_x;
          fComp_y = (absarr - lower) / lower
      in fComp_x * EXP_SCALE + fComp_y * EXP_SCALE + NEG_MIN_EXP * EXP_SCALE)"

definition half_dep :: "real \<Rightarrow> real" where
  "half_dep f =
     (let abs_f = \<bar>f\<bar>;
          dep =
            (if abs_f > HALF_NRM_MIN then normalized_dep (min abs_f HALF_MAX)
             else abs_f * 1023 / HALF_DENRM_MAX)
      in dep + sign_offset f)"

text \<open>
  A half float is a number or an infinity (the source notes that raw halfs of NaNs
  cannot be computed, so a NaN is no input here). For an infinite \<open>f\<close>, \<^verbatim>\<open>abs(f)\<close> is
  \<open>+\<infinity>\<close>, which is greater than \<^verbatim>\<open>HALF_NRM_MIN\<close>, \<^verbatim>\<open>min(abs_f, HALF_MAX)\<close> is
  \<^verbatim>\<open>HALF_MAX\<close>, and \<^verbatim>\<open>step(f, 0.0)\<close> is \<open>0\<close> for \<open>+\<infinity>\<close> and \<open>1\<close> for \<open>-\<infinity>\<close>.
\<close>

datatype shader_float = Finite real | PlusInfinity | MinusInfinity

fun raw_half :: "shader_float \<Rightarrow> real" where
  "raw_half (Finite f) = half_dep f"
| "raw_half PlusInfinity = normalized_dep HALF_MAX + 0 * 32768"
| "raw_half MinusInfinity = normalized_dep HALF_MAX + 1 * 32768"

text \<open>
  The row and the column (\<^verbatim>\<open>retVal.y\<close>, \<^verbatim>\<open>retVal.x\<close>) before they are normalised to
  texture coordinates; \<open>wm1\<close> is the constant \<^verbatim>\<open>float(width - 1)\<close>. The half domain
  uses \<^verbatim>\<open>floor\<close>, the float domain \<^verbatim>\<open>float(int(...))\<close>.
\<close>

definition half_row :: "real \<Rightarrow> real \<Rightarrow> real" where
  "half_row wm1 dep = of_int \<lfloor>dep / wm1\<rfloor>"

definition half_column :: "real \<Rightarrow> real \<Rightarrow> real" where
  "half_column wm1 dep = dep - half_row wm1 dep * wm1"

definition float_row :: "real \<Rightarrow> real \<Rightarrow> real" where
  "float_row wm1 dep = of_int (glsl_int (dep / wm1))"

definition float_column :: "real \<Rightarrow> real \<Rightarrow> real" where
  "float_column wm1 dep = dep - float_row wm1 dep * wm1"

text \<open>The linear index \<open>row * (width - 1) + column\<close> of the texel that is addressed.\<close>

definition linear_index :: "real \<Rightarrow> real \<Rightarrow> real" where
  "linear_index wm1 dep = half_row wm1 dep * wm1 + half_column wm1 dep"

text \<open>
  What a half-precision bit pattern denotes (IEEE 754 binary16: one sign bit, five
  exponent bits with bias 15, ten mantissa bits). With exponent field 31 the pattern
  is an infinity when the mantissa is zero and a NaN otherwise.
\<close>

definition half_value :: "nat \<Rightarrow> shader_float option" where
  "half_value k =
     (let s = k div 32768; e = (k div 1024) mod 32; m = k mod 1024;
          sgn = (if s = 1 then - 1 else 1)
      in if e = 31 then
           (if m = 0 then Some (if s = 1 then MinusInfinity else PlusInfinity) else None)
         else if e = 0 then Some (Finite (sgn * (real m / 16777216)))
         else Some (Finite (sgn * ((1 + real m / 1024) * 2 ^ e / 32768))))"

section \<open>The color space set: \<^verbatim>\<open>ColorSpaceSet::Impl\<close> (ColorSpaceSet.cpp)\<close>

text \<open>
  A color space is known to the set by its name only; everything else it carries is
  the field \<open>settings\<close>. \<^verbatim>\<open>createEditableCopy\<close> is a deep copy, so sets hold values and
  share nothing. Names are compared after \<^verbatim>\<open>pystring::lower\<close>, a function of a library
  that is not among the sources; it is the parameter \<open>lower\<close> of every function below.
\<close>

record 's ColorSpace =
  getName :: string
  settings :: 's

type_synonym 's ColorSpaceVec = "'s ColorSpace list"

datatype exception = Exception string

text \<open>\<^verbatim>\<open>getIndex\<close>: the loop over the indices, then the function.\<close>

fun getIndex_loop :: "(string \<Rightarrow> string) \<Rightarrow> string \<Rightarrow> 's ColorSpaceVec \<Rightarrow> nat \<Rightarrow> int" where
  "getIndex_loop lower str [] idx = - 1"
| "getIndex_loop lower str (cs # rest) idx =
     (if lower (getName cs) = str then int idx
      else getIndex_loop lower str rest (Suc idx))"

definition getIndex :: "(string \<Rightarrow> string) \<Rightarrow> 's ColorSpaceVec \<Rightarrow> string \<Rightarrow> int" where
  "getIndex lower m_colorSpaces csName =
     (if csName \<noteq> [] then getIndex_loop lower (lower csName) m_colorSpaces 0 else - 1)"

text \<open>
  \<^verbatim>\<open>add(cs)\<close>: the loop replaces the first entry with the same lower-case name and
  reports whether it found one.
\<close>

fun add_loop ::
  "(string \<Rightarrow> string) \<Rightarrow> string \<Rightarrow> 's ColorSpace \<Rightarrow> 's ColorSpaceVec
     \<Rightarrow> 's ColorSpaceVec option" where
  "add_loop lower csName cs [] = None"
| "add_loop lower csName cs (entry # rest) =
     (if lower (getName entry) = csName then Some (cs # rest)
      else map_option ((#) entry) (add_loop lower csName cs rest))"

definition addColorSpace ::
  "(string \<Rightarrow> string) \<Rightarrow> 's ColorSpaceVec \<Rightarrow> 's ColorSpace
     \<Rightarrow> exception + 's ColorSpaceVec" where
  "addColorSpace lower m_colorSpaces cs =
     (let csName = lower (getName cs) in
      if csName = [] then Inl (Exception ''Cannot add a color space with an empty name.'')
      else case add_loop lower csName cs m_colorSpaces of
             Some replaced \<Rightarrow> Inr replaced
           | None \<Rightarrow> Inr (m_colorSpaces @ [cs]))"

text \<open>
  \<^verbatim>\<open>add(rhs)\<close>: one \<^verbatim>\<open>add\<close> per element. An exception leaves the set as the earlier
  additions made it, so the result is the set together with the exception, if any.
\<close>

fun addColorSpaces ::
  "(string \<Rightarrow> string) \<Rightarrow> 's ColorSpaceVec \<Rightarrow> 's ColorSpaceVec
     \<Rightarrow> 's ColorSpaceVec \<times> exception option" where
  "addColorSpaces lower m_colorSpaces [] = (m_colorSpaces, None)"
| "addColorSpaces lower m_colorSpaces (cs # rhs) =
     (case addColorSpace lower m_colorSpaces cs of
        Inl e \<Rightarrow> (m_colorSpaces, Some e)
      | Inr added \<Rightarrow> addColorSpaces lower added rhs)"

text \<open>\<^verbatim>\<open>remove(csName)\<close>: erase the first entry with that lower-case name.\<close>

fun remove_loop :: "(string \<Rightarrow> string) \<Rightarrow> string \<Rightarrow> 's ColorSpaceVec \<Rightarrow> 's ColorSpaceVec" where
  "remove_loop lower name [] = []"
| "remove_loop lower name (cs # rest) =
     (if lower (getName cs) = name then rest else cs # remove_loop lower name rest)"

definition removeColorSpace ::
  "(string \<Rightarrow> string) \<Rightarrow> 's ColorSpaceVec \<Rightarrow> string \<Rightarrow> 's ColorSpaceVec" where
  "removeColorSpace lower m_colorSpaces csName =
     (let name = lower csName in
      if name = [] then m_colorSpaces else remove_loop lower name m_colorSpaces)"

definition clearColorSpaces :: "'s ColorSpaceVec \<Rightarrow> 's ColorSpaceVec" where
  "clearColorSpaces m_colorSpaces = []"

text \<open>The operators \<^verbatim>\<open>||\<close>, \<^verbatim>\<open>&&\<close> and \<^verbatim>\<open>-\<close>; each builds a new set.\<close>

definition set_union ::
  "(string \<Rightarrow> string) \<Rightarrow> 's ColorSpaceVec \<Rightarrow> 's ColorSpaceVec
     \<Rightarrow> exception + 's ColorSpaceVec" where
  "set_union lower lcss rcss =
     (case addColorSpaces lower lcss rcss of
        (css, None) \<Rightarrow> Inr css
      | (css, Some e) \<Rightarrow> Inl e)"

fun set_intersection_loop ::
  "(string \<Rightarrow> string) \<Rightarrow> 's ColorSpaceVec \<Rightarrow> 's ColorSpaceVec \<Rightarrow> 's ColorSpaceVec
     \<Rightarrow> exception + 's ColorSpaceVec" where
  "set_intersection_loop lower lcss css [] = Inr css"
| "set_intersection_loop lower lcss css (tmp # rest) =
     (if getIndex lower lcss (getName tmp) \<noteq> - 1 then
        (case addColorSpace lower css tmp of
           Inl e \<Rightarrow> Inl e
         | Inr added \<Rightarrow> set_intersection_loop lower lcss added rest)
      else set_intersection_loop lower lcss css rest)"

definition set_intersection ::
  "(string \<Rightarrow> string) \<Rightarrow> 's ColorSpaceVec \<Rightarrow> 's ColorSpaceVec
     \<Rightarrow> exception + 's ColorSpaceVec" where
  "set_intersection lower lcss rcss = set_intersection_loop lower lcss [] rcss"

fun set_difference_loop ::
  "(string \<Rightarrow> string) \<Rightarrow> 's ColorSpaceVec \<Rightarrow> 's ColorSpaceVec \<Rightarrow> 's ColorSpaceVec
     \<Rightarrow> exception + 's ColorSpaceVec" where
  "set_difference_loop lower rcss css [] = Inr css"
| "set_difference_loop lower rcss css (tmp # rest) =
     (if getIndex lower rcss (getName tmp) = - 1 then
        (case addColorSpace lower css tmp of
           Inl e \<Rightarrow> Inl e
         | Inr added \<Rightarrow> set_difference_loop lower rcss added rest)
      else set_difference_loop lower rcss css rest)"

definition set_difference ::
  "(string \<Rightarrow> string) \<Rightarrow> 's ColorSpaceVec \<Rightarrow> 's ColorSpaceVec
     \<Rightarrow> exception + 's ColorSpaceVec" where
  "set_difference lower lcss rcss = set_difference_loop lower rcss [] lcss"

text \<open>The invariant: no two members have the same name up to the case of the letters.\<close>

definition lower_names :: "(string \<Rightarrow> string) \<Rightarrow> 's ColorSpaceVec \<Rightarrow> string list" where
  "lower_names lower m_colorSpaces = map (\<lambda>cs. lower (getName cs)) m_colorSpaces"

definition distinct_names :: "(string \<Rightarrow> string) \<Rightarrow> 's ColorSpaceVec \<Rightarrow> bool" where
  "distinct_names lower m_colorSpaces = distinct (lower_names lower m_colorSpaces)"

text \<open>
  For the examples, a lowering function: the ASCII capital letters \<open>65..90\<close> go to the
  small letters, 32 further on (the bit of value 32, clear in every capital letter, is
  set), and every other character is kept.
\<close>

definition ascii_tolower :: "char \<Rightarrow> char" where
  "ascii_tolower c =
     (if 65 \<le> (of_char c :: nat) \<and> (of_char c :: nat) \<le> 90
      then (case c of Char b0 b1 b2 b3 b4 b5 b6 b7 \<Rightarrow> Char b0 b1 b2 b3 b4 True b6 b7)
      else c)"

definition ascii_lower :: "string \<Rightarrow> string" where
  "ascii_lower str = map ascii_tolower str"

section \<open>Properties of the texture packer\<close>

subsection \<open>Texels of appended, mapped and sliced buffers\<close>

text \<open>
  The output is a concatenation of slices of the input. These lemmas say which input
  triple a texel of such a concatenation is.
\<close>

lemma next_row_le: "r < n \<Longrightarrow> r * W + W \<le> n * (W :: nat)"
proof -
  assume "r < n"
  then have "Suc r * W \<le> n * W"
    by (intro mult_le_mono1) simp
  then show ?thesis
    by (simp add: add.commute)
qed





lemma length_concat_rows:
  "(\<And>j. j < n \<Longrightarrow> length (f j) = k) \<Longrightarrow> length (concat (map f [0..<n])) = n * k"
  by (induction n) simp_all

lemma length_concat_rows_le:
  "(\<And>j. j < n \<Longrightarrow> length (f j) \<le> k) \<Longrightarrow> length (concat (map f [0..<n])) \<le> n * k"
proof (induction n)
  case 0
  show ?case by simp
next
  case (Suc n)
  have "length (concat (map f [0..<n])) \<le> n * k" and "length (f n) \<le> k"
    using Suc by simp_all
  then show ?case
    by simp
qed



lemma texel_nth:
  assumes "3 * n + 2 < length xs"
  shows "texel xs n = [xs ! (3 * n), xs ! (3 * n + 1), xs ! (3 * n + 2)]"
proof -
  have a: "drop (3 * n) xs = xs ! (3 * n) # drop (Suc (3 * n)) xs"
    using assms by (intro Cons_nth_drop_Suc [symmetric]) simp
  have b: "drop (Suc (3 * n)) xs = xs ! (3 * n + 1) # drop (Suc (Suc (3 * n))) xs"
    using assms Cons_nth_drop_Suc [of "Suc (3 * n)" xs] by simp
  have c: "drop (Suc (Suc (3 * n))) xs = xs ! (3 * n + 2) # drop (Suc (Suc (Suc (3 * n)))) xs"
    using assms Cons_nth_drop_Suc [of "Suc (Suc (3 * n))" xs] by (simp add: numeral_2_eq_2)
  show ?thesis
    by (simp add: texel_def a b c)
qed

lemma unat_triple:
  fixes k :: ulong
  assumes "3 * unat k + 2 < 2 ^ 64"
  shows "unat (3 * k) = 3 * unat k"
    and "unat (3 * k + 0) = 3 * unat k"
    and "unat (3 * k + 1) = 3 * unat k + 1"
    and "unat (3 * k + 2) = 3 * unat k + 2"
  using assms by (simp_all add: unat_word_ariths)

lemma unat_triple_le:
  fixes k :: ulong
  assumes "3 * unat k < 2 ^ 64"
  shows "unat (3 * k) = 3 * unat k"
  using assms by (simp add: unat_word_ariths)

lemma max_size_eq: "max_size = 55340232221128654845"
  by (simp add: max_size_def)

lemma push_back_room: "length chn < max_size \<Longrightarrow> push_back chn v = Inr (chn @ [v])"
  by (simp add: push_back_def)

lemma back_inserter_room:
  "length chn + length vs \<le> max_size \<Longrightarrow> back_inserter san vs chn = Inr (chn @ map san vs)"
  by (induction vs arbitrary: chn) (simp_all add: push_back_def)

lemma transform_range_inside:
  assumes "unat a \<le> unat b" and "unat b \<le> length channel"
    and "length chn + (unat b - unat a) \<le> max_size"
  shows "transform_range san channel a b chn =
     Inr (chn @ map san (take (unat b - unat a) (drop (unat a) channel)))"
proof (cases "a = b")
  case True
  then show ?thesis
    by (simp add: transform_range_def)
next
  case False
  then have "a < b"
    using assms(1) by (simp add: word_less_nat_alt word_unat_eq_iff)
  moreover have "length chn + length (take (unat b - unat a) (drop (unat a) channel)) \<le> max_size"
    using assms(3) by simp
  ultimately show ?thesis
    using False assms(2) by (simp add: transform_range_def back_inserter_room del: length_take)
qed

lemma push_triple_inside:
  assumes "length channel < 2 ^ 64" and "3 * unat k + 2 < length channel"
    and "length chn + 3 \<le> max_size"
  shows "push_triple san channel k chn = Inr (chn @ map san (texel channel (unat k)))"
proof -
  have small: "3 * unat k + 2 < 2 ^ 64"
    using assms by simp
  show ?thesis
    using assms(2,3)
    by (simp add: push_triple_def channel_at_def push_back_def unat_triple [OF small] texel_nth)
qed

lemma push_triple_full:
  assumes "length channel < 2 ^ 64" and "3 * unat k + 2 < length channel"
    and "max_size < length chn + 3"
  shows "push_triple san channel k chn = Inl BadAlloc"
proof -
  have small: "3 * unat k + 2 < 2 ^ 64"
    using assms by simp
  show ?thesis
    using assms(2,3)
    by (simp add: push_triple_def channel_at_def push_back_def unat_triple [OF small])
qed

lemma pad_loop_rows:
  fixes currWidth step i leftover :: ulong
  assumes len: "length channel < 2 ^ 64"
    and cw: "3 * unat currWidth \<le> length channel"
    and s0: "0 < unat step"
    and scw: "unat step \<le> unat currWidth"
    and icw: "unat i < unat currWidth"
    and room: "length chn + 6 * (unat currWidth - unat i) \<le> max_size"
  shows "pad_loop san channel currWidth step i leftover chn =
     Some (Inr (leftover - word_of_nat ((unat currWidth - unat i - 1) div unat step * unat step),
                chn @ concat (map (\<lambda>j. map san (take (3 * (unat step + 1))
                                               (drop (3 * (unat i + j * unat step)) channel)))
                             [0..<(unat currWidth - unat i - 1) div unat step])))"
  using icw room
proof (induction "unat currWidth - unat i" arbitrary: i leftover chn rule: less_induct)
  case less
  let ?S = "unat step" and ?CW = "unat currWidth" and ?I = "unat i"
  have bound: "unat (currWidth - step) = ?CW - ?S"
    using scw by (simp add: unat_sub word_le_nat_alt)
  show ?case
  proof (cases "i < currWidth - step")
    case False
    then have "?CW - ?I - 1 < ?S"
      using bound less.prems by (simp add: word_less_nat_alt)
    then have "(?CW - ?I - 1) div ?S = 0"
      by simp
    then show ?thesis
      using False by (subst pad_loop.simps) simp
  next
    case True
    then have lt: "?I + ?S < ?CW"
      using bound by (simp add: word_less_nat_alt)
    have next_i: "unat (i + step) = ?I + ?S"
    proof -
      have "?CW < 2 ^ 64"
        using unsigned_less [of currWidth, where ?'a = nat] by simp
      then show ?thesis
        using lt by (simp add: unat_word_ariths)
    qed
    have i3: "unat (3 * i) = 3 * ?I"
      using lt cw len by (intro unat_triple_le) simp
    have n3: "unat (3 * (i + step)) = 3 * (?I + ?S)"
      using lt cw len next_i unat_triple_le [of "i + step"] by simp
    have room1: "length chn + 3 * ?S + 3 \<le> max_size"
      using less.prems(2) lt s0 by linarith
    have range: "transform_range san channel (3 * i) (3 * (i + step)) chn =
        Inr (chn @ map san (take (3 * ?S) (drop (3 * ?I) channel)))"
      using transform_range_inside [of "3 * i" "3 * (i + step)" channel chn san] i3 n3 lt cw room1
      by (simp add: diff_mult_distrib2)
    have slice: "length (take (3 * ?S) (drop (3 * ?I) channel)) = 3 * ?S"
      using lt cw by simp
    have push: "push_triple san channel (i + step)
          (chn @ map san (take (3 * ?S) (drop (3 * ?I) channel))) =
        Inr ((chn @ map san (take (3 * ?S) (drop (3 * ?I) channel)))
               @ map san (texel channel (?I + ?S)))"
      using push_triple_inside [OF len, of "i + step"
          "chn @ map san (take (3 * ?S) (drop (3 * ?I) channel))" san] next_i lt cw room1 slice
      by simp
    have row: "map san (take (3 * ?S) (drop (3 * ?I) channel)) @ map san (texel channel (?I + ?S))
        = map san (take (3 * (?S + 1)) (drop (3 * ?I) channel))"
    proof -
      have "3 * (?S + 1) = 3 * ?S + 3"
        by simp
      moreover have "drop (3 * ?S) (drop (3 * ?I) channel) = drop (3 * (?I + ?S)) channel"
        by (simp add: add_mult_distrib2 add.commute)
      ultimately show ?thesis
        by (simp only: texel_def take_add map_append)
    qed
    have m: "(?CW - ?I - 1) div ?S = Suc ((?CW - (?I + ?S) - 1) div ?S)"
    proof -
      have "?CW - ?I - 1 = (?CW - (?I + ?S) - 1) + ?S"
        using lt by simp
      moreover have "(x + ?S) div ?S = Suc (x div ?S)" for x
        using s0 by simp
      ultimately show ?thesis
        by (simp only:)
    qed
    have IH: "pad_loop san channel currWidth step (i + step) (leftover - step)
                (chn @ map san (take (3 * (?S + 1)) (drop (3 * ?I) channel))) = 
       Some (Inr (leftover - step - word_of_nat ((?CW - (?I + ?S) - 1) div ?S * ?S),
                (chn @ map san (take (3 * (?S + 1)) (drop (3 * ?I) channel))) @ 
                  concat (map (\<lambda>j. map san (take (3 * (?S + 1))
                                               (drop (3 * ((?I + ?S) + j * ?S)) channel)))
                             [0..<(?CW - (?I + ?S) - 1) div ?S])))"
    proof -
      have "length (take (3 * (?S + 1)) (drop (3 * ?I) channel)) = 3 * ?S + 3"
        using lt cw by simp
      then have "length (chn @ map san (take (3 * (?S + 1)) (drop (3 * ?I) channel)))
          + 6 * (?CW - (?I + ?S)) \<le> max_size"
        using less.prems(2) lt s0 by simp
      then show ?thesis
        using less.hyps [of "i + step" "chn @ map san (take (3 * (?S + 1)) (drop (3 * ?I) channel))"
            "leftover - step"] next_i lt s0
        by simp
    qed
    have lo: "leftover - step - word_of_nat (k * ?S) = leftover - word_of_nat (Suc k * ?S)" for k
      by simp
    have unroll: "pad_loop san channel currWidth step i leftover chn =
        pad_loop san channel currWidth step (i + step) (leftover - step)
          ((chn @ map san (take (3 * ?S) (drop (3 * ?I) channel)))
             @ map san (texel channel (?I + ?S)))"
      by (subst pad_loop.simps) (simp only: True if_True range sum.case push)
    have rows: "concat (map (\<lambda>j. map san (take (3 * (?S + 1))
                                  (drop (3 * (?I + j * ?S)) channel))) [0..<Suc k])
        = map san (take (3 * (?S + 1)) (drop (3 * ?I) channel)) @
          concat (map (\<lambda>j. map san (take (3 * (?S + 1))
                                  (drop (3 * ((?I + ?S) + j * ?S)) channel))) [0..<k])" for k
      by (simp add: map_upt_Suc add.assoc del: upt_Suc)
    show ?thesis
      unfolding unroll append_assoc row IH m lo rows ..
  qed
qed

lemma slice_snoc:
  "map san (take (3 * m) (drop (3 * a) xs)) @ map san (texel xs (a + m))
     = map san (take (3 * (m + 1)) (drop (3 * a) xs))"
proof -
  have "3 * (m + 1) = 3 * m + 3"
    by simp
  moreover have "drop (3 * m) (drop (3 * a) xs) = drop (3 * (a + m)) xs"
    by (simp add: add_mult_distrib2 add.commute)
  ultimately show ?thesis
    by (simp only: texel_def take_add map_append)
qed

lemma pad_tail_inside:
  fixes currWidth :: ulong
  assumes len: "length channel < 2 ^ 64"
    and cw: "3 * unat currWidth \<le> length channel"
    and pos: "0 < unat currWidth"
    and room: "length chn + 3 * n \<le> max_size"
  shows "pad_tail san channel currWidth n chn =
     Inr (chn @ concat (replicate n (map san (texel channel (unat currWidth - 1)))))"
  using room
proof (induction n arbitrary: chn)
  case 0
  show ?case by simp
next
  case (Suc n)
  have "currWidth \<noteq> 0"
    using pos by (simp add: unat_gt_0)
  then have k: "unat (currWidth - 1) = unat currWidth - 1"
    by (rule unat_minus_one)
  have inside: "3 * unat (currWidth - 1) + 2 < length channel"
    unfolding k using cw pos by linarith
  have triple: "length (texel channel (unat currWidth - 1)) = 3"
    using inside unfolding k by (simp add: texel_def)
  have "push_triple san channel (currWidth - 1) chn =
      Inr (chn @ map san (texel channel (unat currWidth - 1)))"
    using push_triple_inside [OF len inside, of chn san] k Suc.prems by simp
  moreover have "length (chn @ map san (texel channel (unat currWidth - 1))) + 3 * n \<le> max_size"
    using Suc.prems triple by simp
  ultimately show ?case
    by (simp add: Suc.IH)
qed

lemma pad_tail_full:
  fixes currWidth :: ulong
  assumes len: "length channel < 2 ^ 64"
    and cw: "3 * unat currWidth \<le> length channel"
    and pos: "0 < unat currWidth"
    and held: "length chn \<le> max_size"
    and full: "max_size < length chn + 3 * n"
  shows "pad_tail san channel currWidth n chn = Inl BadAlloc"
  using held full
proof (induction n arbitrary: chn)
  case 0
  then show ?case by simp
next
  case (Suc n)
  have "currWidth \<noteq> 0"
    using pos by (simp add: unat_gt_0)
  then have k: "unat (currWidth - 1) = unat currWidth - 1"
    by (rule unat_minus_one)
  have inside: "3 * unat (currWidth - 1) + 2 < length channel"
    unfolding k using cw pos by linarith
  have triple: "length (texel channel (unat currWidth - 1)) = 3"
    using inside unfolding k by (simp add: texel_def)
  show ?case
  proof (cases "length chn + 3 \<le> max_size")
    case True
    then have "push_triple san channel (currWidth - 1) chn =
        Inr (chn @ map san (texel channel (unat currWidth - 1)))"
      using push_triple_inside [OF len inside, of chn san] k by simp
    moreover have "pad_tail san channel currWidth n
        (chn @ map san (texel channel (unat currWidth - 1))) = Inl BadAlloc"
      using True Suc.prems triple by (intro Suc.IH) simp_all
    ultimately show ?thesis
      by simp
  next
    case False
    then have "push_triple san channel (currWidth - 1) chn = Inl BadAlloc"
      using push_triple_full [OF len inside, of chn san] by simp
    then show ?thesis
      by simp
  qed
qed

lemma unat_of_nat_ulong: "n < 2 ^ 64 \<Longrightarrow> unat (word_of_nat n :: ulong) = n"
  by (simp add: unat_of_nat)

lemma pad_rows_packed:
  fixes width height :: ulong and channel :: "'f list"
  defines "S \<equiv> unat width - 1"
  defines "CW \<equiv> length channel div 3"
  defines "n \<equiv> (CW - 1) div S"
  assumes len: "length channel < 2 ^ 64"
    and h: "1 < height"
    and w: "2 \<le> width"
    and enough: "S \<le> CW"
    and room: "length chn + 6 * CW \<le> max_size"
  shows "pad_rows san width height channel chn =
     Some (Inr (chn @
       concat (map (\<lambda>j. map san (take (3 * unat width) (drop (3 * (j * S)) channel))) [0..<n]) @
       map san (take (3 * (CW - n * S)) (drop (3 * (n * S)) channel))))"
proof -
  define cw :: ulong where "cw = word_of_nat CW"
  have w2: "2 \<le> unat width"
    using w by (simp add: word_le_nat_alt)
  have S: "unat (width - 1) = S"
    unfolding S_def using w2 by (intro unat_minus_one) auto
  have S0: "0 < S" and W: "S + 1 = unat width"
    using w2 by (simp_all add: S_def)
  have CWlen: "3 * CW \<le> length channel"
    by (simp add: CW_def)
  have CW: "unat cw = CW"
    unfolding cw_def using len CWlen by (intro unat_of_nat_ulong) linarith
  have CW0: "0 < CW"
    using enough S0 by simp
  have cw3: "3 * unat cw \<le> length channel"
    unfolding CW by (rule CWlen)
  have nS: "n * S \<le> CW - 1"
    by (simp add: n_def)
  have nS_small: "n * S < 2 ^ 64"
    using nS CWlen len by linarith
  let ?rows = "concat (map (\<lambda>j. map san (take (3 * (S + 1)) (drop (3 * (j * S)) channel)))
                        [0..<n])"
  have loop: "pad_loop san channel cw (width - 1) 0 cw chn =
      Some (Inr (cw - word_of_nat (n * S), chn @ ?rows))"
    using pad_loop_rows [OF len cw3, of "width - 1" 0 chn san cw] S0 CW0 enough room
    unfolding S CW n_def by (simp del: of_nat_mult)
  have len_rows: "length ?rows \<le> 3 * (n * S) + 3 * n"
  proof -
    have "length ?rows \<le> n * (3 * (S + 1))"
      by (rule length_concat_rows_le) simp
    then show ?thesis
      by (simp add: algebra_simps)
  qed
  have n_le: "n \<le> n * S"
    using S0 by simp
  have un: "unat (word_of_nat (n * S) :: ulong) = n * S"
    using nS_small by (rule unat_of_nat_ulong)
  have le: "(word_of_nat (n * S) :: ulong) \<le> cw"
    unfolding word_le_nat_alt un CW using nS by linarith
  have L: "unat (cw - word_of_nat (n * S)) = CW - n * S"
    using unat_sub [OF le] unfolding un CW .
  have Lpos: "0 < cw - word_of_nat (n * S)"
  proof -
    have "0 < CW - n * S"
      using nS CW0 by linarith
    then show ?thesis
      unfolding word_less_nat_alt L by simp
  qed
  have cancel: "cw - (cw - word_of_nat (n * S)) = word_of_nat (n * S)"
    by simp
  have a: "unat (3 * (word_of_nat (n * S) :: ulong)) = 3 * (n * S)"
  proof -
    have "3 * unat (word_of_nat (n * S) :: ulong) < 2 ^ 64"
      unfolding un using nS CWlen len by linarith
    then show ?thesis
      using unat_triple_le [of "word_of_nat (n * S)"] unfolding un by blast
  qed
  have cw1: "unat (cw - 1) = CW - 1"
  proof -
    have "cw \<noteq> 0"
      by (metis CW CW0 unat_gt_0)
    then have "unat (cw - 1) = unat cw - 1"
      by (rule unat_minus_one)
    then show ?thesis
      unfolding CW .
  qed
  have b: "unat (3 * (cw - 1)) = 3 * (CW - 1)"
  proof -
    have "3 * unat (cw - 1) < 2 ^ 64"
      unfolding cw1 using CWlen len by linarith
    then show ?thesis
      using unat_triple_le [of "cw - 1"] unfolding cw1 by blast
  qed
  let ?part = "map san (take (3 * (CW - 1 - n * S)) (drop (3 * (n * S)) channel))"
  have len_part: "length ?part \<le> 3 * (CW - 1 - n * S)"
    by simp
  have range: "transform_range san channel (3 * word_of_nat (n * S)) (3 * (cw - 1)) (chn @ ?rows) =
      Inr ((chn @ ?rows) @ ?part)"
  proof -
    have "3 * (n * S) \<le> 3 * (CW - 1)"
      using nS by linarith
    moreover have "3 * (CW - 1) \<le> length channel"
      using CWlen by linarith
    moreover have "3 * (CW - 1) - 3 * (n * S) = 3 * (CW - 1 - n * S)"
      by (simp only: diff_mult_distrib2)
    moreover have "length (chn @ ?rows) + 3 * (CW - 1 - n * S) \<le> max_size"
      using len_rows n_le nS room unfolding length_append by linarith
    ultimately show ?thesis
      using transform_range_inside
        [of "3 * word_of_nat (n * S)" "3 * (cw - 1)" channel "chn @ ?rows" san]
      unfolding a b by simp
  qed
  have push: "push_triple san channel (cw - 1) (chn @ ?rows @ ?part) =
      Inr (chn @ ?rows @ ?part @ map san (texel channel (CW - 1)))"
  proof -
    have "3 * (CW - 1) + 2 < length channel"
      using CWlen CW0 by linarith
    moreover have "length (chn @ ?rows @ ?part) + 3 \<le> max_size"
      using len_rows len_part n_le nS room CW0 unfolding length_append by linarith
    ultimately show ?thesis
      using push_triple_inside [OF len, of "cw - 1" "chn @ ?rows @ ?part" san]
      unfolding cw1 append_assoc by blast
  qed
  have last_row: "map san (take (3 * (CW - 1 - n * S)) (drop (3 * (n * S)) channel))
       @ map san (texel channel (CW - 1))
      = map san (take (3 * (CW - n * S)) (drop (3 * (n * S)) channel))"
  proof -
    have "n * S + (CW - 1 - n * S) = CW - 1" and "CW - 1 - n * S + 1 = CW - n * S"
      using nS CW0 by linarith+
    then show ?thesis
      using slice_snoc [of san "CW - 1 - n * S" "n * S" channel] by simp
  qed
  show ?thesis
    unfolding W [symmetric] pad_rows_def Let_def CW_def [symmetric] cw_def [symmetric]
    by (simp only: h if_True loop option.case sum.case prod.case Lpos cancel range push
          append_assoc last_row)
qed

lemma rows_written:
  fixes width :: ulong and channel :: "'f list"
  defines "S \<equiv> unat width - 1"
  defines "CW \<equiv> length channel div 3"
  defines "n \<equiv> (CW - 1) div S"
  assumes w: "2 \<le> width"
    and enough: "S \<le> CW"
  shows "length
      (concat (map (\<lambda>j. map san (take (3 * unat width) (drop (3 * (j * S)) channel))) [0..<n]) @
       map san (take (3 * (CW - n * S)) (drop (3 * (n * S)) channel)))
     = 3 * (n * unat width + (CW - n * S))"
    and "n * unat width + (CW - n * S) = CW + n"
    and "n < CW"
proof -
  let ?rows = "concat (map (\<lambda>j. map san (take (3 * unat width) (drop (3 * (j * S)) channel))) [0..<n])"
  let ?last = "map san (take (3 * (CW - n * S)) (drop (3 * (n * S)) channel))"
  have w2: "2 \<le> unat width"
    using w by (simp add: word_le_nat_alt)
  have S0: "0 < S" and W: "S + 1 = unat width"
    using w2 by (simp_all add: S_def)
  have CWlen: "3 * CW \<le> length channel"
    by (simp add: CW_def)
  have CW0: "0 < CW"
    using enough S0 by simp
  have nS: "n * S \<le> CW - 1"
    by (simp add: n_def)
  have "n \<le> n * S"
    using S0 by simp
  then show "n < CW"
    using nS CW0 by linarith
  show "n * unat width + (CW - n * S) = CW + n"
    using nS CW0 unfolding W [symmetric] by (simp add: algebra_simps)
  have row_len: "length (map san (take (3 * unat width) (drop (3 * (j * S)) channel)))
      = 3 * unat width" if "j < n" for j
  proof -
    have "j * S + S \<le> n * S"
      using that by (rule next_row_le)
    then have "3 * (j * S) + 3 * unat width \<le> length channel"
      using nS CWlen CW0 W by linarith
    then show ?thesis
      by simp
  qed
  have len_rows: "length ?rows = n * (3 * unat width)"
    using row_len by (rule length_concat_rows)
  have len_last: "length ?last = 3 * (CW - n * S)"
  proof -
    have "3 * (n * S) + 3 * (CW - n * S) \<le> length channel"
      using nS CWlen CW0 by linarith
    then show ?thesis
      by simp
  qed
  show "length (?rows @ ?last) = 3 * (n * unat width + (CW - n * S))"
    unfolding length_append len_rows len_last by (simp add: algebra_simps)
qed

lemma PadLutChannels_packed:
  fixes width height :: ulong and channel :: "'f list"
  defines "S \<equiv> unat width - 1"
  defines "CW \<equiv> length channel div 3"
  defines "n \<equiv> (CW - 1) div S"
  defines "written \<equiv> n * unat width + (CW - n * S)"
  defines "missing \<equiv> unat (width * height - word_of_nat written)"
  assumes len: "length channel < 2 ^ 64"
    and h: "1 < height"
    and w: "2 \<le> width"
    and enough: "S \<le> CW"
    and fits: "written \<le> unat (width * height)"
  shows "PadLutChannels san width height channel [] =
     Some (Inr (
       concat (map (\<lambda>j. map san (take (3 * unat width) (drop (3 * (j * S)) channel))) [0..<n]) @
       map san (take (3 * (CW - n * S)) (drop (3 * (n * S)) channel)) @
       concat (replicate missing (map san (texel channel (CW - 1))))))"
proof -
  define cw :: ulong where "cw = word_of_nat CW"
  let ?rows = "concat (map (\<lambda>j. map san (take (3 * unat width) (drop (3 * (j * S)) channel))) [0..<n])"
  let ?last = "map san (take (3 * (CW - n * S)) (drop (3 * (n * S)) channel))"
  have w2: "2 \<le> unat width"
    using w by (simp add: word_le_nat_alt)
  have S0: "0 < S"
    using w2 by (simp add: S_def)
  have CWlen: "3 * CW \<le> length channel"
    by (simp add: CW_def)
  have CW: "unat cw = CW"
    unfolding cw_def using len CWlen by (intro unat_of_nat_ulong) linarith
  have CW0: "0 < CW"
    using enough S0 by simp
  have room: "length ([] :: 'f list) + 6 * CW \<le> max_size"
    using len CWlen by (simp add: max_size_eq)
  have rows: "pad_rows san width height channel [] = Some (Inr (?rows @ ?last))"
    using pad_rows_packed [OF len h w, of "[]" san] enough room
    unfolding S_def CW_def n_def by simp
  have len_written: "length (?rows @ ?last) = 3 * written"
    unfolding S_def CW_def n_def written_def
    by (rule rows_written(1) [OF w enough [unfolded S_def CW_def]])
  then have written: "length (?rows @ ?last) div 3 = written"
    by simp
  have wh: "unat (width * height) < 2 ^ 64"
    using unsigned_less [of "width * height", where ?'a = nat] by simp
  have wr: "unat (word_of_nat written :: ulong) = written"
    using fits wh by (intro unat_of_nat_ulong) linarith
  have "(word_of_nat written :: ulong) \<le> width * height"
    unfolding word_le_nat_alt wr by (rule fits)
  then have "missing = unat (width * height) - written"
    unfolding missing_def using unat_sub [of "word_of_nat written" "width * height"]
    unfolding wr by blast
  then have "length (?rows @ ?last) + 3 * missing \<le> max_size"
    unfolding len_written using fits wh by (simp add: max_size_eq)
  then have tail: "pad_tail san channel cw missing (?rows @ ?last) =
      Inr ((?rows @ ?last) @ concat (replicate missing (map san (texel channel (CW - 1)))))"
    using pad_tail_inside [OF len, of cw "?rows @ ?last" missing san] CWlen CW0
    unfolding CW by blast
  show ?thesis
    unfolding PadLutChannels_def Let_def CW_def [symmetric] cw_def [symmetric]
    by (simp only: rows option.case sum.case written missing_def [symmetric] tail append_assoc)
qed

lemma PadLutChannels_overflow:
  fixes width height :: ulong and channel :: "'f list"
  defines "S \<equiv> unat width - 1"
  defines "CW \<equiv> length channel div 3"
  defines "n \<equiv> (CW - 1) div S"
  assumes len: "length channel < 2 ^ 64"
    and h: "1 < height"
    and w: "2 \<le> width"
    and enough: "S \<le> CW"
    and over: "unat (width * height) < CW + n"
  shows "PadLutChannels san width height channel [] = Some (Inl BadAlloc)"
proof -
  define cw :: ulong where "cw = word_of_nat CW"
  define written where "written = n * unat width + (CW - n * S)"
  define missing where "missing = unat (width * height - word_of_nat written)"
  let ?rows = "concat (map (\<lambda>j. map san (take (3 * unat width) (drop (3 * (j * S)) channel))) [0..<n])"
  let ?last = "map san (take (3 * (CW - n * S)) (drop (3 * (n * S)) channel))"
  have w2: "2 \<le> unat width"
    using w by (simp add: word_le_nat_alt)
  have S0: "0 < S"
    using w2 by (simp add: S_def)
  have CWlen: "3 * CW \<le> length channel"
    by (simp add: CW_def)
  have CW: "unat cw = CW"
    unfolding cw_def using len CWlen by (intro unat_of_nat_ulong) linarith
  have CW0: "0 < CW"
    using enough S0 by simp
  have room: "length ([] :: 'f list) + 6 * CW \<le> max_size"
    using len CWlen by (simp add: max_size_eq)
  have rows: "pad_rows san width height channel [] = Some (Inr (?rows @ ?last))"
    using pad_rows_packed [OF len h w, of "[]" san] enough room
    unfolding S_def CW_def n_def by simp
  have len_written: "length (?rows @ ?last) = 3 * written"
    unfolding S_def CW_def n_def written_def
    by (rule rows_written(1) [OF w enough [unfolded S_def CW_def]])
  then have written: "length (?rows @ ?last) div 3 = written"
    by simp
  have sum: "written = CW + n"
    unfolding S_def CW_def n_def written_def
    by (rule rows_written(2) [OF w enough [unfolded S_def CW_def]])
  have n: "n < CW"
    unfolding S_def CW_def n_def
    by (rule rows_written(3) [OF w enough [unfolded S_def CW_def]])
  have small: "written < 2 ^ 64"
    unfolding sum using n CWlen len by linarith
  have wr: "unat (word_of_nat written :: ulong) = written"
    using small by (rule unat_of_nat_ulong)
  have "missing = unat (width * height) + 2 ^ 64 - written"
  proof -
    have "\<not> unat (word_of_nat written :: ulong) \<le> unat (width * height)"
      unfolding wr using over sum by simp
    then have "unat (width * height - word_of_nat written)
        = unat (width * height) + 2 ^ size (width * height) - written"
      unfolding unat_sub_if_size [of "width * height" "word_of_nat written"] wr
      by (simp only: if_False)
    then show ?thesis
      unfolding missing_def by (simp add: word_size)
  qed
  then have full: "max_size < length (?rows @ ?last) + 3 * missing"
    unfolding len_written using small by (simp add: max_size_eq)
  have held: "length (?rows @ ?last) \<le> max_size"
    unfolding len_written using small by (simp add: max_size_eq)
  have tail: "pad_tail san channel cw missing (?rows @ ?last) = Inl BadAlloc"
    using pad_tail_full [OF len, of cw "?rows @ ?last" missing san] CWlen CW0 held full
    unfolding CW by blast
  show ?thesis
    unfolding PadLutChannels_def Let_def CW_def [symmetric] cw_def [symmetric]
    by (simp only: rows option.case sum.case written written_def [symmetric]
          missing_def [symmetric] tail)
qed





subsection \<open>Runs that read outside the input, and runs that exhaust the vector\<close>

lemma pad_loop_zero_step:
  fixes currWidth :: ulong
  assumes pos: "0 < currWidth" and len: "length channel < 2 ^ 64" and one: "3 \<le> length channel"
  shows "pad_loop san channel currWidth 0 0 leftover chn = Some (Inl BadAlloc)"
proof (induction "max_size - length chn" arbitrary: chn leftover rule: less_induct)
  case less
  have inside: "3 * unat (0 :: ulong) + 2 < length channel"
    using one by simp
  have range: "transform_range san channel (3 * 0) (3 * (0 + 0)) chn = Inr chn"
    by (simp add: transform_range_def)
  show ?case
  proof (cases "length chn + 3 \<le> max_size")
    case True
    have triple: "length (texel channel 0) = 3"
      using one by (simp add: texel_def)
    have push: "push_triple san channel 0 chn = Inr (chn @ map san (texel channel 0))"
      using push_triple_inside [OF len inside True, of san] by simp
    have "pad_loop san channel currWidth 0 0 leftover (chn @ map san (texel channel 0))
        = Some (Inl BadAlloc)"
      using True triple by (intro less.hyps) simp
    then show ?thesis
      using pos range push by (subst pad_loop.simps) simp
  next
    case False
    then have "push_triple san channel 0 chn = Inl BadAlloc"
      using push_triple_full [OF len inside, of chn san] by simp
    then show ?thesis
      using pos range by (subst pad_loop.simps) simp
  qed
qed

lemma push_triple_outside:
  assumes "length channel \<le> unat (3 * k + 2)" and "length chn + 2 < max_size"
  shows "push_triple san channel k chn = Inl OutOfRange"
  using assms by (simp add: push_triple_def channel_at_def push_back_def)


lemma transform_range_cases:
  assumes "length chn + length channel \<le> max_size"
  shows "transform_range san channel a b chn = Inl OutOfRange \<or>
         (\<exists>vs. length vs \<le> length channel \<and> transform_range san channel a b chn = Inr (chn @ vs))"
proof -
  have whole: "back_inserter san (drop (unat a) channel) chn =
      Inr (chn @ map san (drop (unat a) channel))"
    using assms by (intro back_inserter_room) simp
  have part: "back_inserter san (take m (drop (unat a) channel)) chn =
      Inr (chn @ map san (take m (drop (unat a) channel)))" for m
    using assms by (intro back_inserter_room) simp
  show ?thesis
  proof (cases "a = b")
    case True
    then have "transform_range san channel a b chn = Inr (chn @ [])"
      by (simp add: transform_range_def)
    then show ?thesis
      by (intro disjI2 exI [of _ "[]"]) simp
  next
    case ne: False
    show ?thesis
    proof (cases "a < b \<and> unat b \<le> length channel")
      case True
      then have "transform_range san channel a b chn =
          Inr (chn @ map san (take (unat b - unat a) (drop (unat a) channel)))"
        using ne by (simp add: transform_range_def part)
      then show ?thesis
        by (intro disjI2 exI [of _ "map san (take (unat b - unat a) (drop (unat a) channel))"])
          simp
    next
      case False
      then have "transform_range san channel a b chn = Inl OutOfRange"
        unfolding transform_range_def whole using ne by (simp only: if_False sum.case)
      then show ?thesis
        by simp
    qed
  qed
qed

lemma pad_loop_too_few:
  fixes currWidth step :: ulong
  assumes less: "currWidth < step"
    and outside: "length channel \<le> unat (3 * step + 2)"
    and room: "length chn + length channel + 2 < max_size"
  shows "pad_loop san channel currWidth step 0 leftover chn = Some (Inl OutOfRange)"
proof -
  have "currWidth - step \<noteq> 0"
    using less by auto
  then have enter: "0 < currWidth - step"
    by (simp only: word_neq_0_conv)
  have "length chn + length channel \<le> max_size"
    using room by simp
  then consider
      (off) "transform_range san channel (3 * 0) (3 * (0 + step)) chn = Inl OutOfRange"
    | (on) vs where "length vs \<le> length channel"
        "transform_range san channel (3 * 0) (3 * (0 + step)) chn = Inr (chn @ vs)"
    using transform_range_cases [of chn channel san "3 * 0" "3 * (0 + step)"] by blast
  then show ?thesis
  proof cases
    case off
    then show ?thesis
      using enter by (subst pad_loop.simps) simp
  next
    case on
    have "push_triple san channel step (chn @ vs) = Inl OutOfRange"
      using outside on(1) room by (intro push_triple_outside) simp_all
    then show ?thesis
      using enter on(2) by (subst pad_loop.simps) simp
  qed
qed

lemma unat_max_ulong: "unat (- 1 :: ulong) = 18446744073709551615"
  by (simp add: unsigned_minus_1_eq_mask mask_eq_exp_minus_1)

lemma PadLutChannels_zero_step:
  fixes height :: ulong
  assumes len: "length channel < 2 ^ 64" and h: "1 < height"
  shows "PadLutChannels san 1 height channel [] =
     (if length channel div 3 = 0 then Some (Inl OutOfRange) else Some (Inl BadAlloc))"
proof (cases "length channel div 3 = 0")
  case True
  have loop: "pad_loop san channel 0 0 0 0 [] = Some (Inr (0, []))"
    by (subst pad_loop.simps) simp
  have "0 < unat height"
    using h by (simp add: word_less_nat_alt)
  then obtain m where m: "unat height = Suc m"
    by (cases "unat height") simp_all
  have "length channel \<le> unat (3 * (0 - 1) + 2 :: ulong)"
    using True len by (simp add: unat_max_ulong)
  then have "push_triple san channel (0 - 1) [] = Inl OutOfRange"
    by (rule push_triple_outside) (simp add: max_size_eq)
  then show ?thesis
    using True h by (simp add: PadLutChannels_def pad_rows_def loop m)
next
  case False
  then have "3 \<le> length channel"
    by (metis div_less not_less)
  moreover have "unat (word_of_nat (length channel div 3) :: ulong) = length channel div 3"
    using len by (intro unat_of_nat_ulong) (meson div_le_dividend le_less_trans)
  then have "0 < (word_of_nat (length channel div 3) :: ulong)"
    using False by (simp add: word_less_nat_alt)
  ultimately have "pad_loop san channel (word_of_nat (length channel div 3)) 0 0
      (word_of_nat (length channel div 3)) [] = Some (Inl BadAlloc)"
    using len by (intro pad_loop_zero_step)
  then show ?thesis
    using False h by (simp add: PadLutChannels_def pad_rows_def)
qed

lemma PadLutChannels_too_few:
  fixes width height :: ulong
  assumes len: "length channel < 2 ^ 64"
    and h: "1 < height"
    and wb: "unat width \<le> 2 ^ 62"
    and w1: "width \<noteq> 1"
    and few: "length channel div 3 < unat (width - 1)"
  shows "PadLutChannels san width height channel [] = Some (Inl OutOfRange)"
proof -
  define CW where "CW = length channel div 3"
  define S where "S = unat (width - 1)"
  define cw :: ulong where "cw = word_of_nat CW"
  have CW: "unat cw = CW"
    unfolding cw_def CW_def using len
    by (intro unat_of_nat_ulong) (meson div_le_dividend le_less_trans)
  have few': "CW < S"
    using few by (simp add: CW_def S_def)
  have less: "cw < width - 1"
    unfolding word_less_nat_alt CW S_def [symmetric] by (rule few')
  have outside: "length channel \<le> unat (3 * (width - 1) + 2)"
  proof (cases "width = 0")
    case True
    then show ?thesis
      using len by (simp add: unat_max_ulong)
  next
    case False
    then have "unat (width - 1) = unat width - 1"
      by (rule unat_minus_one)
    moreover have "0 < unat width"
      using False by (simp add: unat_gt_0)
    ultimately have "3 * S + 2 < 2 ^ 64"
      unfolding S_def using wb by simp
    then have eq: "unat (3 * (width - 1) + 2) = 3 * S + 2"
      unfolding S_def by (rule unat_triple)
    have "length channel < 3 * CW + 3"
      unfolding CW_def using dividend_less_times_div [of 3 "length channel"] by simp
    then have "length channel \<le> 3 * S + 2"
      using few' by linarith
    then show ?thesis
      unfolding eq .
  qed
  have "pad_loop san channel cw (width - 1) 0 cw [] = Some (Inl OutOfRange)"
    using less outside by (rule pad_loop_too_few) (use len in \<open>simp add: max_size_eq\<close>)
  then show ?thesis
    using h by (simp add: PadLutChannels_def pad_rows_def cw_def CW_def)
qed


subsection \<open>The test channel\<close>

lemma length_test_channel: "length (test_channel n) = 3 * n"
  by (induction n) (simp_all add: test_channel_def test_triple_def)

lemma test_channel_unfold:
  "test_channel 1 = test_triple 0"
  "test_channel 2 = test_triple 0 @ test_triple 1"
  "test_channel 9 = concat (map test_triple [0, 1, 2, 3, 4, 5, 6, 7, 8])"
proof -
  have "[0..<9] = [0, 1, 2, 3, 4, 5, 6, 7, 8]"
    by (simp add: upt_conv_Cons)
  then show "test_channel 9 = concat (map test_triple [0, 1, 2, 3, 4, 5, 6, 7, 8])"
    by (simp only: test_channel_def)
qed (simp_all add: test_channel_def upt_conv_Cons)

subsection \<open>The claims about the packer\<close>

text \<open>
  In the statements below a call is described by natural numbers: \<open>unat width\<close> texels
  per row, \<open>unat height\<close> rows, \<open>length channel div 3\<close> input triples
  (\<^verbatim>\<open>currWidth\<close>). A \<^verbatim>\<open>std::vector\<close> holds fewer than \<open>2\<^sup>6\<^sup>4\<close> elements, which is the
  hypothesis \<open>length channel < 2 ^ 64\<close>. The rows of a call with \<open>height > 1\<close> take
  \<open>currWidth + (currWidth - 1) div (width - 1)\<close> triples. When that is more than the
  \<open>width * height\<close> texels of the texture, \<^verbatim>\<open>missingEntries\<close> wraps around and the padding
  loop pushes until the vector cannot grow: the call ends in \<open>BadAlloc\<close> and returns
  nothing.
\<close>







text \<open>
  \<^bold>\<open>C9\<close>, as amended. When \<open>height > 1\<close> and the width is at most \<open>2\<^sup>6\<^sup>2\<close> (so that
  \<open>3 * (width - 1) + 2\<close> does not wrap around), \<^verbatim>\<open>PadLutChannels\<close> reads outside the
  input vector exactly when the input holds fewer than \<open>width - 1\<close> triples
  (\<open>width - 1\<close> computed in \<^verbatim>\<open>unsigned long\<close>) or no triple at all.
\<close>

theorem reads_in_bounds_iff_enough_triples:
  fixes width height :: ulong and channel :: "'f list"
  assumes len: "length channel < 2 ^ 64"
    and h: "1 < height"
    and wb: "unat width \<le> 2 ^ 62"
  shows "PadLutChannels SanitizeFloat width height channel [] \<noteq> Some (Inl OutOfRange)
     \<longleftrightarrow> unat (width - 1) \<le> length channel div 3 \<and> 1 \<le> length channel div 3"
proof (cases "width = 1")
  case True
  show ?thesis
    unfolding True PadLutChannels_zero_step [OF len h] by simp
next
  case w1: False
  show ?thesis
  proof (cases "unat (width - 1) \<le> length channel div 3")
    case False
    then have "PadLutChannels SanitizeFloat width height channel [] = Some (Inl OutOfRange)"
      using PadLutChannels_too_few [OF len h wb w1] by simp
    then show ?thesis
      using False by simp
  next
    case enough: True
    have "width \<noteq> 0"
    proof
      assume "width = 0"
      then have "unat (width - 1) = 18446744073709551615"
        by (simp add: unat_max_ulong)
      moreover have "length channel div 3 \<le> length channel"
        by simp
      ultimately show False
        using enough len by simp
    qed
    then have S: "unat (width - 1) = unat width - 1" and "0 < unat width"
      by (simp_all add: unat_minus_one unat_gt_0)
    moreover have "unat width \<noteq> 1"
      using w1 by (metis unat_1 word_unat_eq_iff)
    ultimately have w2: "2 \<le> width"
      by (simp add: word_le_nat_alt)
    have enough': "unat width - 1 \<le> length channel div 3"
      using enough S by simp
    have "1 \<le> length channel div 3"
      using enough S \<open>0 < unat width\<close> \<open>unat width \<noteq> 1\<close> by linarith
    moreover have "PadLutChannels SanitizeFloat width height channel [] \<noteq> Some (Inl OutOfRange)"
    proof (cases "length channel div 3 + (length channel div 3 - 1) div (unat width - 1)
                    \<le> unat (width * height)")
      case True
      have "(length channel div 3 - 1) div (unat width - 1) * unat width +
          (length channel div 3 - (length channel div 3 - 1) div (unat width - 1) * (unat width - 1))
          \<le> unat (width * height)"
        unfolding rows_written(2) [OF w2 enough'] by (rule True)
      from PadLutChannels_packed [OF len h w2 enough' this, of SanitizeFloat] show ?thesis
        by (simp only: option.inject sum.distinct not_False_eq_True)
    next
      case False
      then have "unat (width * height)
          < length channel div 3 + (length channel div 3 - 1) div (unat width - 1)"
        by simp
      from PadLutChannels_overflow [OF len h w2 enough' this, of SanitizeFloat] show ?thesis
        by simp
    qed
    ultimately show ?thesis
      using enough by simp
  qed
qed

theorem reads_in_bounds_iff_enough_triples_witness:
  "length (test_channel 1) < 2 ^ 64 \<and> (1 :: ulong) < 2 \<and> unat (4 :: ulong) \<le> 2 ^ 62 \<and>
   (PadLutChannels (\<lambda>v. v) 4 2 (test_channel 1) [] \<noteq> Some (Inl OutOfRange)
     \<longleftrightarrow> unat (4 - 1 :: ulong) \<le> length (test_channel 1) div 3 \<and>
          1 \<le> length (test_channel 1) div 3)"
  using reads_in_bounds_iff_enough_triples
    [where channel = "test_channel 1" and width = 4 and height = 2
       and SanitizeFloat = "\<lambda>v. v"]
  by (simp add: length_test_channel)

text \<open>
  The bound on the width is needed. With \<open>width - 1 = (2\<^sup>6\<^sup>5 + 1) div 3\<close> the product
  \<open>3 * (width - 1)\<close> wraps around to \<open>1\<close>: for two input triples the loop bound
  \<open>currWidth - step\<close> wraps, the loop body runs once and reads the elements \<open>0\<close> to
  \<open>3\<close>, the leftover branch reads the elements \<open>1\<close> to \<open>5\<close>, and every later read is of
  the last triple. No read is outside the six input floats, although the input holds
  far fewer than \<open>width - 1\<close> triples.
\<close>

theorem reads_in_bounds_huge_width_counterexample:
  "(1 :: ulong) < 2 \<and>
   \<not> (unat (12297829382473034412 - 1 :: ulong) \<le> length (test_channel 2) div 3) \<and>
   PadLutChannels (\<lambda>v. v) 12297829382473034412 2 (test_channel 2) [] =
     Some (Inr ([0, 1 / 10, 2 / 10, 1] @ [1 / 10, 2 / 10, 1, 11 / 10, 12 / 10] @
                concat (replicate 6148914691236517205 (test_triple 1))))"
proof -
  have len: "length (test_channel 2) < 2 ^ 64"
    by (simp add: length_test_channel)
  have loop: "pad_loop (\<lambda>v. v) (test_channel 2) 2 12297829382473034411 0 2 [] =
      Some (Inr (6148914691236517207, [0, 1 / 10, 2 / 10, 1]))"
    apply (subst pad_loop.simps)
    apply (simp add: transform_range_def push_triple_def channel_at_def push_back_def
        max_size_eq test_channel_unfold test_triple_def word_less_nat_alt)
    apply (subst pad_loop.simps)
    apply (simp add: word_less_nat_alt)
    done
  have rows: "pad_rows (\<lambda>v. v) 12297829382473034412 2 (test_channel 2) [] =
      Some (Inr [0, 1 / 10, 1 / 5, 1, 1 / 10, 1 / 5, 1, 11 / 10, 6 / 5])"
    by (simp add: pad_rows_def length_test_channel loop)
      (simp add: transform_range_def push_triple_def channel_at_def push_back_def max_size_eq
        word_less_nat_alt test_channel_unfold test_triple_def)
  have tail: "pad_tail (\<lambda>v. v) (test_channel 2) 2 6148914691236517205
        [0, 1 / 10, 1 / 5, 1, 1 / 10, 1 / 5, 1, 11 / 10, 6 / 5] =
      Inr ([0, 1 / 10, 1 / 5, 1, 1 / 10, 1 / 5, 1, 11 / 10, 6 / 5]
             @ concat (replicate 6148914691236517205 (test_triple 1)))"
    using pad_tail_inside [OF len, of 2 "[0, 1 / 10, 1 / 5, 1, 1 / 10, 1 / 5, 1, 11 / 10, 6 / 5]"
        6148914691236517205 "\<lambda>v. v"]
    by (simp add: length_test_channel max_size_eq)
      (simp add: test_channel_unfold texel_def test_triple_def)
  have out: "PadLutChannels (\<lambda>v. v) 12297829382473034412 2 (test_channel 2) [] =
      Some (Inr ([0, 1 / 10, 1 / 5, 1, 1 / 10, 1 / 5, 1, 11 / 10, 6 / 5]
             @ concat (replicate 6148914691236517205 (test_triple 1))))"
    unfolding PadLutChannels_def rows by (simp add: length_test_channel tail)
  show ?thesis
    unfolding out by (simp add: length_test_channel)
qed





text \<open>
  \<^bold>\<open>C6.\<close> The third unit test (\<^verbatim>\<open>pad_lut_two_dimension_2\<close>): for \<open>width = 4\<close>,
  \<open>height = 3\<close> and the nine triples \<open>(i, i + 0.1, i + 0.2)\<close>, \<open>i = 0..8\<close>, which
  \<^verbatim>\<open>SanitizeFloat\<close> leaves as they are, \<^verbatim>\<open>PadLutChannels\<close> returns exactly 36 floats: the
  triples \<open>0, 1, 2, 3\<close>, then \<open>3, 4, 5, 6\<close>, then \<open>6, 7, 8, 8\<close>.
\<close>

theorem exact_division_scenario:
  assumes "\<forall>v \<in> set (test_channel 9). SanitizeFloat v = v"
  shows "PadLutChannels SanitizeFloat 4 3 (test_channel 9) [] =
           Some (Inr (concat (map test_triple [0, 1, 2, 3, 3, 4, 5, 6, 6, 7, 8, 8]))) \<and>
         length (concat (map test_triple [0, 1, 2, 3, 3, 4, 5, 6, 6, 7, 8, 8])) = 36"
proof -
  have loop: "pad_loop SanitizeFloat (test_channel 9) 9 3 0 9 [] =
      Some (Inr (3, map SanitizeFloat (concat (map test_triple [0, 1, 2, 3, 3, 4, 5, 6]))))"
    by (simp add: pad_loop.simps transform_range_def push_triple_def channel_at_def
        push_back_def max_size_eq test_channel_unfold test_triple_def)
  have rows: "pad_rows SanitizeFloat 4 3 (test_channel 9) [] =
      Some (Inr (map SanitizeFloat (concat (map test_triple [0, 1, 2, 3, 3, 4, 5, 6, 6, 7, 8]))))"
    unfolding pad_rows_def
    by (simp add: length_test_channel loop)
      (simp add: transform_range_def push_triple_def channel_at_def push_back_def max_size_eq
        test_channel_unfold test_triple_def)
  have "PadLutChannels SanitizeFloat 4 3 (test_channel 9) [] =
      Some (Inr (map SanitizeFloat (concat (map test_triple [0, 1, 2, 3, 3, 4, 5, 6, 6, 7, 8, 8]))))"
    unfolding PadLutChannels_def
    by (simp add: rows length_test_channel)
      (simp add: push_triple_def channel_at_def push_back_def max_size_eq test_channel_unfold
        test_triple_def)
  moreover have "map SanitizeFloat (concat (map test_triple [0, 1, 2, 3, 3, 4, 5, 6, 6, 7, 8, 8]))
      = concat (map test_triple [0, 1, 2, 3, 3, 4, 5, 6, 6, 7, 8, 8])"
    using assms by (intro map_idI) (auto simp: test_channel_unfold)
  ultimately show ?thesis
    by (simp add: test_triple_def)
qed

theorem exact_division_scenario_witness:
  "PadLutChannels (\<lambda>v. v) 4 3 (test_channel 9) [] =
     Some (Inr (concat (map test_triple [0, 1, 2, 3, 3, 4, 5, 6, 6, 7, 8, 8]))) \<and>
   length (concat (map test_triple [0, 1, 2, 3, 3, 4, 5, 6, 6, 7, 8, 8])) = 36"
  using exact_division_scenario [where SanitizeFloat = "\<lambda>v. v"] by simp


section \<open>Properties of the shader emitter\<close>

subsection \<open>The half-domain index of a finite half\<close>

lemma sign_offset_eq: "sign_offset f = (if f \<le> 0 then 32768 else 0)"
  by (simp add: sign_offset_def glsl_step_def)

lemma half_pattern_split:
  "(k :: nat) = 32768 * (k div 32768) + 1024 * ((k div 1024) mod 32) + k mod 1024"
proof -
  have "k div 32768 = k div 1024 div 32"
    by (simp add: div_mult2_eq [symmetric])
  moreover have "k div 1024 = 32 * (k div 1024 div 32) + (k div 1024) mod 32"
    by simp
  moreover have "k = 1024 * (k div 1024) + k mod 1024"
    by simp
  ultimately show ?thesis
    by linarith
qed

lemma two_powr_exponent:
  "2 powr (real e - 15) = 2 ^ e / 32768"
  "2 powr (real e - 14) = 2 * (2 ^ e / 32768)"
proof -
  have "2 powr (real e - 15) = 2 powr (real e) / 2 powr 15"
    by (rule powr_diff)
  then show a: "2 powr (real e - 15) = 2 ^ e / 32768"
    by (simp add: powr_realpow)
  have "2 powr (real e - 14) = 2 powr (real e - 15 + 1)"
    by simp
  also have "\<dots> = 2 powr (real e - 15) * 2 powr 1"
    by (rule powr_add)
  finally show "2 powr (real e - 14) = 2 * (2 ^ e / 32768)"
    by (simp add: a)
qed

lemma normalized_dep_half:
  assumes "m < 1024"
  shows "normalized_dep ((1 + real m / 1024) * 2 ^ e / 32768) = 1024 * real e + real m"
proof -
  define lower :: real where "lower = 2 ^ e / 32768"
  define x where "x = (1 + real m / 1024) * lower"
  have lower_pos: "0 < lower"
    by (simp add: lower_def)
  have x_eq: "(1 + real m / 1024) * 2 ^ e / 32768 = x"
    by (simp add: x_def lower_def)
  have "lower \<le> x"
    unfolding x_def using lower_pos by (simp add: mult_le_cancel_right1)
  moreover have "x < 2 * lower"
    unfolding x_def using lower_pos assms by simp
  ultimately have "\<lfloor>log 2 x\<rfloor> = int e - 15"
    using lower_pos floor_log_eq_powr_iff [of x 2 "int e - 15"]
    by (simp add: two_powr_exponent lower_def)
  then have "normalized_dep x =
      real_of_int (int e - 15) * 1024 + (x - lower) / lower * 1024 + 15 * 1024"
    by (simp add: normalized_dep_def Let_def two_powr_exponent lower_def EXP_SCALE_def
        NEG_MIN_EXP_def)
  also have "(x - lower) / lower = real m / 1024"
    unfolding x_def using lower_pos by (simp add: field_simps)
  finally show ?thesis
    unfolding x_eq by simp
qed

lemma half_dep_denormal:
  assumes "m < 1024"
  shows "half_dep (real m / 16777216) = real m + (if m = 0 then 32768 else 0)"
    and "half_dep (- (real m / 16777216)) = real m + 32768"
proof -
  have "real m / 16777216 \<le> 1 / 16384"
    using assms by simp
  then show "half_dep (real m / 16777216) = real m + (if m = 0 then 32768 else 0)"
    and "half_dep (- (real m / 16777216)) = real m + 32768"
    by (simp_all add: half_dep_def sign_offset_eq HALF_NRM_MIN_def HALF_DENRM_MAX_def)
qed

lemma half_dep_normal:
  assumes m: "m < 1024" and e: "1 \<le> e" "e < 31"
  shows "half_dep ((1 + real m / 1024) * 2 ^ e / 32768) = 1024 * real e + real m"
    and "half_dep (- ((1 + real m / 1024) * 2 ^ e / 32768)) = 1024 * real e + real m + 32768"
proof -
  define x :: real where "x = (1 + real m / 1024) * 2 ^ e / 32768"
  have pow_lo: "(2 :: real) \<le> 2 ^ e"
    using e(1) by (metis power_increasing power_one_right one_le_numeral)
  have "(2 :: real) ^ e \<le> 2 ^ 30"
    using e(2) by (intro power_increasing) simp_all
  then have pow_hi: "(2 :: real) ^ e \<le> 1073741824"
    by simp
  have x_pos: "0 < x"
    by (simp add: x_def)
  have x_lo: "1 / 16384 \<le> x"
  proof -
    have "1 / 16384 \<le> (2 :: real) ^ e / 32768"
      using pow_lo by simp
    also have "\<dots> \<le> (1 + real m / 1024) * (2 ^ e / 32768)"
      by (simp add: mult_le_cancel_right1)
    finally show ?thesis
      by (simp add: x_def)
  qed
  have x_hi: "x \<le> 65504"
  proof -
    have "real m \<le> 1023"
      using m by simp
    then have "1 + real m / 1024 \<le> 2047 / 1024"
      by simp
    then have "(1 + real m / 1024) * (2 ^ e / 32768) \<le> 2047 / 1024 * (1073741824 / 32768)"
      using pow_hi by (intro mult_mono) simp_all
    then show ?thesis
      by (simp add: x_def)
  qed
  have norm: "normalized_dep x = 1024 * real e + real m"
    unfolding x_def using m by (rule normalized_dep_half)
  have small: "x * 1023 / HALF_DENRM_MAX = 1024 * real e + real m" if "x = 1 / 16384"
  proof -
    have "(1 + real m / 1024) * 2 ^ e = 2"
      using that by (simp add: x_def mult.commute)
    moreover have "1 * (2 :: real) \<le> (1 + real m / 1024) * 2 ^ e"
      using pow_lo by (intro mult_mono) simp_all
    ultimately have "real m / 1024 * 2 ^ e = 2 - 2 ^ e"
      by (simp add: algebra_simps)
    moreover have "0 \<le> real m / 1024 * 2 ^ e"
      by simp
    ultimately have p: "(2 :: real) ^ e = 2" and z: "real m / 1024 * 2 ^ e = 0"
      using pow_lo by linarith+
    from z have "m = 0"
      by simp
    moreover from p have "e = 1"
      using power_inject_exp [of "2 :: real" e 1] by simp
    ultimately have "m = 0" and "e = 1" .
    then show ?thesis
      using that by (simp add: HALF_DENRM_MAX_def)
  qed
  have dep: "(if x > HALF_NRM_MIN then normalized_dep (min x HALF_MAX)
              else x * 1023 / HALF_DENRM_MAX) = 1024 * real e + real m"
  proof (cases "x > HALF_NRM_MIN")
    case True
    then show ?thesis
      using x_hi norm by (simp add: HALF_MAX_def min_absorb1)
  next
    case False
    then have "x = 1 / 16384"
      using x_lo by (simp add: HALF_NRM_MIN_def)
    then show ?thesis
      using False small by simp
  qed
  show "half_dep ((1 + real m / 1024) * 2 ^ e / 32768) = 1024 * real e + real m"
    using dep x_pos unfolding x_def [symmetric]
    by (simp add: half_dep_def sign_offset_eq)
  show "half_dep (- ((1 + real m / 1024) * 2 ^ e / 32768)) = 1024 * real e + real m + 32768"
    using dep x_pos unfolding x_def [symmetric]
    by (simp add: half_dep_def sign_offset_eq)
qed

lemma half_dep_half_value:
  assumes "0 < k" and "k < 65536" and "(k div 1024) mod 32 \<noteq> 31"
  shows "\<exists>f. half_value k = Some (Finite f) \<and> half_dep f = real k"
proof -
  define s e m where "s = k div 32768" and "e = (k div 1024) mod 32" and "m = k mod 1024"
  have k: "k = 32768 * s + 1024 * e + m"
    unfolding s_def e_def m_def by (rule half_pattern_split)
  have m: "m < 1024" and e: "e < 31" and s: "s = 0 \<or> s = 1"
    using assms by (auto simp: m_def e_def s_def)
  have hv: "half_value k =
      (if e = 31 then (if m = 0 then Some (if s = 1 then MinusInfinity else PlusInfinity) else None)
       else if e = 0 then Some (Finite ((if s = 1 then - 1 else 1) * (real m / 16777216)))
       else Some (Finite ((if s = 1 then - 1 else 1) * ((1 + real m / 1024) * 2 ^ e / 32768))))"
    by (simp add: half_value_def s_def e_def m_def Let_def)
  have rk: "real k = 32768 * real s + 1024 * real e + real m"
    using k by simp
  consider (pos_denormal) "s = 0" "e = 0" | (neg_denormal) "s = 1" "e = 0"
    | (pos_normal) "s = 0" "1 \<le> e" | (neg_normal) "s = 1" "1 \<le> e"
    using s by fastforce
  then show ?thesis
  proof cases
    case pos_denormal
    then have "m \<noteq> 0"
      using k assms(1) by simp
    then have "half_dep (real m / 16777216) = real k"
      using half_dep_denormal(1) [OF m] rk pos_denormal by simp
    moreover have "half_value k = Some (Finite (real m / 16777216))"
      using hv pos_denormal by simp
    ultimately show ?thesis
      by blast
  next
    case neg_denormal
    have "half_dep (- (real m / 16777216)) = real k"
      using half_dep_denormal(2) [OF m] rk neg_denormal by simp
    moreover have "half_value k = Some (Finite (- (real m / 16777216)))"
      using hv neg_denormal by simp
    ultimately show ?thesis
      by blast
  next
    case pos_normal
    have "half_dep ((1 + real m / 1024) * 2 ^ e / 32768) = real k"
      using half_dep_normal(1) [OF m pos_normal(2) e] rk pos_normal by simp
    moreover have "half_value k = Some (Finite ((1 + real m / 1024) * 2 ^ e / 32768))"
      using hv pos_normal e by simp
    ultimately show ?thesis
      by blast
  next
    case neg_normal
    have "half_dep (- ((1 + real m / 1024) * 2 ^ e / 32768)) = real k"
      using half_dep_normal(2) [OF m neg_normal(2) e] rk neg_normal by simp
    moreover have "half_value k = Some (Finite (- ((1 + real m / 1024) * 2 ^ e / 32768)))"
      using hv neg_normal e by simp
    ultimately show ?thesis
      by blast
  qed
qed

lemma float_of_width_minus_one:
  fixes width :: ulong
  assumes "2 \<le> width"
  shows "1 \<le> float_of_ulong (width - 1)"
proof -
  have "2 \<le> unat width"
    using assms by (simp add: word_le_nat_alt)
  moreover from this have "unat (width - 1) = unat width - 1"
    by (intro unat_minus_one) auto
  ultimately have "1 \<le> unat (width - 1)"
    by simp
  then have "real 1 \<le> real (unat (width - 1))"
    by (simp only: of_nat_le_iff)
  then show ?thesis
    by (simp add: float_of_ulong_def)
qed

lemma linear_index_dep: "linear_index wm1 dep = dep"
  by (simp add: linear_index_def half_column_def)

lemma half_column_range:
  assumes "0 < wm1"
  shows "0 \<le> half_column wm1 dep" and "half_column wm1 dep < wm1"
proof -
  define row where "row = real_of_int \<lfloor>dep / wm1\<rfloor>"
  have "row \<le> dep / wm1" and "dep / wm1 < row + 1"
    unfolding row_def by linarith+
  then have "row * wm1 \<le> dep" and "dep < (row + 1) * wm1"
    using assms by (simp_all add: pos_le_divide_eq pos_divide_less_eq)
  then show "0 \<le> half_column wm1 dep" and "half_column wm1 dep < wm1"
    unfolding half_column_def half_row_def row_def [symmetric]
    by (simp_all add: algebra_simps)
qed

lemma normalized_dep_HALF_MAX: "normalized_dep HALF_MAX = 31743"
  using normalized_dep_half [of 1023 30] by (simp add: HALF_MAX_def)

subsection \<open>The claims about the emitted addressing code\<close>

text \<open>
  \<^bold>\<open>C2\<close>, as amended. For every integer \<open>k\<close> from \<open>1\<close> to \<open>65535\<close> whose exponent field
  is not \<open>31\<close> (the pattern of a finite half other than \<open>+0\<close>) and every \<open>width \<ge> 2\<close>,
  the half-domain computation, in exact arithmetic, turns the number with bit pattern
  \<open>k\<close> into \<open>dep = k\<close>; the row is \<open>floor (k / (width - 1))\<close>, the column lies in
  \<open>[0, width - 1)\<close>, and the linear index \<open>row * (width - 1) + column\<close> is \<open>k\<close>.
\<close>

theorem half_domain_round_trip:
  fixes width :: ulong
  assumes "0 < k" and "k < 65536" and "(k div 1024) mod 32 \<noteq> 31" and "2 \<le> width"
  shows "\<exists>f. half_value k = Some (Finite f) \<and>
           raw_half (Finite f) = real k \<and>
           linear_index (float_of_ulong (width - 1)) (raw_half (Finite f)) = real k \<and>
           half_row (float_of_ulong (width - 1)) (raw_half (Finite f))
             = real_of_int \<lfloor>real k / float_of_ulong (width - 1)\<rfloor> \<and>
           0 \<le> half_column (float_of_ulong (width - 1)) (raw_half (Finite f)) \<and>
           half_column (float_of_ulong (width - 1)) (raw_half (Finite f))
             < float_of_ulong (width - 1)"
proof -
  obtain f where f: "half_value k = Some (Finite f)" and dep: "half_dep f = real k"
    using half_dep_half_value [OF assms(1-3)] by blast
  have "0 < float_of_ulong (width - 1)"
    using float_of_width_minus_one [OF assms(4)] by simp
  then show ?thesis
    using f dep half_column_range [of "float_of_ulong (width - 1)" "real k"]
    by (simp add: linear_index_dep half_row_def)
qed

theorem half_domain_round_trip_witness:
  "half_value 15360 = Some (Finite 1) \<and>
   (\<exists>f. half_value 15360 = Some (Finite f) \<and>
        raw_half (Finite f) = real 15360 \<and>
        linear_index (float_of_ulong (4096 - 1)) (raw_half (Finite f)) = real 15360 \<and>
        half_row (float_of_ulong (4096 - 1)) (raw_half (Finite f))
          = real_of_int \<lfloor>real 15360 / float_of_ulong (4096 - 1)\<rfloor> \<and>
        0 \<le> half_column (float_of_ulong (4096 - 1)) (raw_half (Finite f)) \<and>
        half_column (float_of_ulong (4096 - 1)) (raw_half (Finite f))
          < float_of_ulong (4096 - 1))"
proof -
  have "half_value 15360 = Some (Finite 1)"
    by (simp add: half_value_def)
  then show ?thesis
    using half_domain_round_trip [where k = 15360 and width = 4096] by auto
qed

text \<open>
  The claim fails for the patterns that the clamp \<^verbatim>\<open>min(abs_f, HALF_MAX)\<close> gives up:
  \<open>+\<infinity>\<close> has the pattern \<open>31744\<close> and is sent to \<open>31743\<close>, the index of \<open>65504\<close>. It also
  fails for \<open>k = 0\<close>: \<open>+0\<close> is sent to \<open>32768\<close>, the index of \<open>-0\<close>, because
  \<^verbatim>\<open>step(f, 0.0)\<close> is \<open>1\<close> at \<open>f = 0\<close> (see C5).
\<close>

theorem half_domain_round_trip_counterexample:
  "half_value 31744 = Some PlusInfinity \<and>
   linear_index (float_of_ulong (4096 - 1)) (raw_half PlusInfinity) = 31743 \<and>
   half_value 0 = Some (Finite 0) \<and>
   linear_index (float_of_ulong (4096 - 1)) (raw_half (Finite 0)) = 32768"
  by (simp add: half_value_def linear_index_dep normalized_dep_HALF_MAX half_dep_def
      sign_offset_eq HALF_NRM_MIN_def)

text \<open>
  \<^bold>\<open>C5.\<close> The claim is that the sign term adds \<open>32768\<close> exactly when \<open>f < 0\<close> and
  nothing at \<open>f = 0\<close>, which is what the comment "Adjust position for negative values"
  announces. The emitted term \<^verbatim>\<open>step(f, 0.0) * 32768.0\<close> is \<open>32768\<close> at \<open>f = 0\<close> as
  well, so that for the input \<open>0\<close> the index \<^verbatim>\<open>dep\<close> is \<open>32768\<close> and not the raw half
  \<open>0\<close>.
\<close>

theorem sign_offset_at_zero: "sign_offset 0 = 32768 \<and> half_dep 0 = 32768"
  by (simp add: half_dep_def sign_offset_def glsl_step_def HALF_NRM_MIN_def)

text \<open>
  \<^bold>\<open>C7.\<close> For every \<open>dep \<ge> 0\<close> and every \<open>width \<ge> 2\<close> the row of the half domain,
  \<^verbatim>\<open>floor(dep / float(width - 1))\<close>, and the row of the float domain,
  \<^verbatim>\<open>float(int(dep / float(width - 1)))\<close>, are equal, and so are the columns computed from
  them. (Exact arithmetic; the conversion to \<^verbatim>\<open>int\<close> is not bounded.)
\<close>

theorem rows_agree_on_nonnegative_dep:
  fixes width :: ulong
  assumes "0 \<le> dep" and "2 \<le> width"
  shows "half_row (float_of_ulong (width - 1)) dep = float_row (float_of_ulong (width - 1)) dep \<and>
         half_column (float_of_ulong (width - 1)) dep
           = float_column (float_of_ulong (width - 1)) dep"
proof -
  have "0 < float_of_ulong (width - 1)"
    using float_of_width_minus_one [OF assms(2)] by simp
  then have "0 \<le> dep / float_of_ulong (width - 1)"
    using assms(1) by simp
  then show ?thesis
    by (simp add: half_row_def float_row_def half_column_def float_column_def glsl_int_def)
qed

theorem rows_agree_on_nonnegative_dep_witness:
  "half_row (float_of_ulong (4 - 1)) 7 = float_row (float_of_ulong (4 - 1)) 7 \<and>
   half_column (float_of_ulong (4 - 1)) 7 = float_column (float_of_ulong (4 - 1)) 7 \<and>
   half_row (float_of_ulong (4 - 1)) 7 = 2"
proof -
  have "\<lfloor>7 / 3 :: real\<rfloor> = 2"
    by linarith
  then show ?thesis
    using rows_agree_on_nonnegative_dep [where dep = 7 and width = 4]
    by (simp add: half_row_def float_of_ulong_def)
qed

text \<open>For a negative \<open>dep\<close> the two rows differ: \<^verbatim>\<open>floor\<close> rounds down, \<^verbatim>\<open>int\<close> towards zero.\<close>

lemma rows_differ_on_negative_dep:
  "half_row (float_of_ulong (4 - 1)) (- 1) = - 1 \<and> float_row (float_of_ulong (4 - 1)) (- 1) = 0"
proof -
  have "\<lfloor>- (1 / 3) :: real\<rfloor> = - 1" and "\<lceil>- (1 / 3) :: real\<rceil> = 0"
    by linarith+
  then show ?thesis
    by (simp add: half_row_def float_row_def glsl_int_def float_of_ulong_def)
qed

subsection \<open>The emitter does not check the LUT length\<close>

text \<open>
  \<^bold>\<open>C4\<close>, as amended. \<^verbatim>\<open>GetLut1DGPUShaderProgram\<close> has no check of the LUT length. For
  every LUT of length \<open>1\<close> (three values) and a maximal texture width of at least \<open>2\<close>
  it returns without a failure: it registers a texture of width \<open>1\<close> and height \<open>1\<close>
  that holds the sanitized triple, and it emits the single-row coordinates, whose
  factor \<^verbatim>\<open>dim - 1\<close> is \<open>0\<close>, or, for a half-domain LUT, a \<^verbatim>\<open>computePos\<close> that divides
  by \<^verbatim>\<open>float(width - 1)\<close>, which is \<open>0\<close>.
\<close>

theorem length_one_lut_is_not_rejected:
  fixes defaultMaxWidth :: ulong
  assumes triple: "length lutValues = 3"
    and maxw: "2 \<le> defaultMaxWidth"
  shows "GetLut1DGPUShaderProgram SanitizeFloat defaultMaxWidth 1 lutValues isInputHalfDomain =
         Some (Inr \<lparr> texture_width = 1,
                     texture_height = 1,
                     texture_values = map SanitizeFloat lutValues,
                     addressing_code =
                       (if isInputHalfDomain then HalfDomainPos 0 1 1
                        else SingleRowCoords 1) \<rparr>)"
proof -
  have nz: "defaultMaxWidth \<noteq> 0"
    using maxw by auto
  have less: "1 < defaultMaxWidth"
    using maxw by (simp add: word_less_nat_alt word_le_nat_alt)
  then have width: "min 1 defaultMaxWidth = 1"
    by simp
  have height: "1 div defaultMaxWidth + 1 = 1"
    using less by (simp add: div_word_less)
  have pad: "PadLutChannels SanitizeFloat 1 1 lutValues [] =
      Some (Inr (map SanitizeFloat lutValues))"
    using triple by (simp add: PadLutChannels_def pad_rows_def back_inserter_room max_size_eq)
  show ?thesis
    unfolding GetLut1DGPUShaderProgram_def Let_def width height
    using nz by (simp add: pad)
qed

theorem length_one_lut_is_not_rejected_witness:
  "GetLut1DGPUShaderProgram (\<lambda>v. v) 4096 1 (test_channel 1) True =
     Some (Inr \<lparr> texture_width = 1, texture_height = 1,
                 texture_values = map (\<lambda>v. v) (test_channel 1),
                 addressing_code = HalfDomainPos 0 1 1 \<rparr>)"
  using length_one_lut_is_not_rejected
    [where lutValues = "test_channel 1" and defaultMaxWidth = 4096
       and SanitizeFloat = "\<lambda>v. v" and isInputHalfDomain = True]
  by (simp add: length_test_channel)

text \<open>
  The claim that a length below \<open>2\<close> is rejected fails at length \<open>1\<close>: the call returns
  a \<open>1 \<times> 1\<close> texture and addressing code, for the float domain and for the half
  domain.
\<close>

theorem length_one_lut_counterexample:
  "(1 :: ulong) < 2 \<and>
   GetLut1DGPUShaderProgram (\<lambda>v. v) 4096 1 [0, 1 / 10, 2 / 10 :: real] False =
     Some (Inr \<lparr> texture_width = 1, texture_height = 1,
                 texture_values = [0, 1 / 10, 2 / 10],
                 addressing_code = SingleRowCoords 1 \<rparr>) \<and>
   GetLut1DGPUShaderProgram (\<lambda>v. v) 4096 1 [0, 1 / 10, 2 / 10 :: real] True =
     Some (Inr \<lparr> texture_width = 1, texture_height = 1,
                 texture_values = [0, 1 / 10, 2 / 10],
                 addressing_code = HalfDomainPos 0 1 1 \<rparr>)"
  by (simp add: GetLut1DGPUShaderProgram_def PadLutChannels_def pad_rows_def div_word_less
      push_back_def max_size_eq)

section \<open>Properties of the color space set\<close>

lemma lower_names_simps [simp]:
  "lower_names lower [] = []"
  "lower_names lower (cs # css) = lower (getName cs) # lower_names lower css"
  "lower_names lower (css @ css') = lower_names lower css @ lower_names lower css'"
  by (simp_all add: lower_names_def)

lemma add_loop_None: "add_loop lower k cs css = None \<longleftrightarrow> k \<notin> set (lower_names lower css)"
  by (induction css) auto

lemma add_loop_Some:
  "add_loop lower (lower (getName cs)) cs css = Some css' \<Longrightarrow>
     lower_names lower css' = lower_names lower css"
  by (induction css arbitrary: css') (auto split: if_splits)

lemma add_loop_replaces:
  assumes "distinct (lower_names lower css)" and "i < length css"
    and "lower (getName (css ! i)) = k"
  shows "add_loop lower k cs css = Some (css[i := cs])"
  using assms
proof (induction css arbitrary: i)
  case Nil
  then show ?case by simp
next
  case (Cons entry rest)
  show ?case
  proof (cases i)
    case 0
    then show ?thesis using Cons.prems by simp
  next
    case (Suc j)
    then have "k \<in> set (lower_names lower rest)"
      using Cons.prems by (auto simp: lower_names_def)
    then have "lower (getName entry) \<noteq> k"
      using Cons.prems(1) by auto
    then show ?thesis
      using Suc Cons.prems Cons.IH [of j] by simp
  qed
qed

lemma addColorSpace_distinct:
  assumes "distinct_names lower css" and "addColorSpace lower css cs = Inr css'"
  shows "distinct_names lower css'"
proof (cases "add_loop lower (lower (getName cs)) cs css")
  case None
  then have "lower (getName cs) \<notin> set (lower_names lower css)"
    by (simp add: add_loop_None)
  then show ?thesis
    using assms None
    by (auto simp: addColorSpace_def distinct_names_def Let_def split: if_splits)
next
  case (Some replaced)
  then show ?thesis
    using assms add_loop_Some [OF Some]
    by (auto simp: addColorSpace_def distinct_names_def Let_def split: if_splits)
qed

lemma addColorSpaces_distinct:
  "distinct_names lower css \<Longrightarrow> distinct_names lower (fst (addColorSpaces lower css rhs))"
  by (induction rhs arbitrary: css) (auto split: sum.splits dest: addColorSpace_distinct)

lemma remove_loop_subset: "set (lower_names lower (remove_loop lower name css)) \<subseteq> set (lower_names lower css)"
  by (induction css) auto

lemma remove_loop_distinct:
  "distinct (lower_names lower css) \<Longrightarrow> distinct (lower_names lower (remove_loop lower name css))"
  using remove_loop_subset by (induction css) fastforce+

lemma set_intersection_loop_distinct:
  "distinct_names lower css \<Longrightarrow> set_intersection_loop lower lcss css rest = Inr r \<Longrightarrow> distinct_names lower r"
  by (induction rest arbitrary: css)
    (auto split: if_splits sum.splits dest: addColorSpace_distinct)

lemma set_difference_loop_distinct:
  "distinct_names lower css \<Longrightarrow> set_difference_loop lower rcss css rest = Inr r \<Longrightarrow> distinct_names lower r"
  by (induction rest arbitrary: css)
    (auto split: if_splits sum.splits dest: addColorSpace_distinct)

text \<open>
  \<^bold>\<open>C10.\<close> Every operation of the set keeps the names pairwise distinct up to the case
  of the letters: \<^verbatim>\<open>addColorSpace\<close>, \<^verbatim>\<open>addColorSpaces\<close> (also when it stops at an
  exception), \<^verbatim>\<open>removeColorSpace\<close>, \<^verbatim>\<open>clearColorSpaces\<close> and the operators \<^verbatim>\<open>||\<close>,
  \<^verbatim>\<open>&&\<close> and \<^verbatim>\<open>-\<close>. Adding a color space whose name matches the member at index \<open>i\<close>
  up to case replaces that member in place: the result is the set with position \<open>i\<close>
  overwritten, of the same size.
\<close>

theorem names_stay_distinct:
  fixes css :: "'s ColorSpaceVec"
  assumes "distinct_names lower css"
  shows "(\<forall>cs css'. addColorSpace lower css cs = Inr css' \<longrightarrow> distinct_names lower css') \<and>
         (\<forall>rhs. distinct_names lower (fst (addColorSpaces lower css rhs))) \<and>
         (\<forall>csName. distinct_names lower (removeColorSpace lower css csName)) \<and>
         distinct_names lower (clearColorSpaces css) \<and>
         (\<forall>rcss r. set_union lower css rcss = Inr r \<longrightarrow> distinct_names lower r) \<and>
         (\<forall>rcss r. set_intersection lower css rcss = Inr r \<longrightarrow> distinct_names lower r) \<and>
         (\<forall>rcss r. set_difference lower css rcss = Inr r \<longrightarrow> distinct_names lower r) \<and>
         (\<forall>(cs :: 's ColorSpace) i. i < length css \<and> lower (getName cs) \<noteq> [] \<and>
                  lower (getName (css ! i)) = lower (getName cs)
                  \<longrightarrow> addColorSpace lower css cs = Inr (css[i := cs]) \<and>
                      length (css[i := cs]) = length css)"
proof (intro conjI allI impI)
  fix cs css'
  assume "addColorSpace lower css cs = Inr css'"
  with assms show "distinct_names lower css'"
    by (rule addColorSpace_distinct)
next
  fix rhs
  show "distinct_names lower (fst (addColorSpaces lower css rhs))"
    using assms by (rule addColorSpaces_distinct)
next
  fix csName
  show "distinct_names lower (removeColorSpace lower css csName)"
    using assms by (simp add: removeColorSpace_def distinct_names_def remove_loop_distinct Let_def)
next
  show "distinct_names lower (clearColorSpaces css)"
    by (simp add: clearColorSpaces_def distinct_names_def)
next
  fix rcss r
  assume "set_union lower css rcss = Inr r"
  then have "r = fst (addColorSpaces lower css rcss)"
    by (auto simp: set_union_def split: prod.splits option.splits)
  then show "distinct_names lower r"
    using assms by (simp add: addColorSpaces_distinct)
next
  fix rcss r
  assume "set_intersection lower css rcss = Inr r"
  then show "distinct_names lower r"
    using set_intersection_loop_distinct [where css = "[]" and lower = lower]
    by (simp add: set_intersection_def distinct_names_def)
next
  fix rcss r
  assume "set_difference lower css rcss = Inr r"
  then show "distinct_names lower r"
    using set_difference_loop_distinct [where css = "[]" and lower = lower]
    by (simp add: set_difference_def distinct_names_def)
next
  fix cs :: "'s ColorSpace" and i
  assume "i < length css \<and> lower (getName cs) \<noteq> [] \<and>
          lower (getName (css ! i)) = lower (getName cs)"
  then show "addColorSpace lower css cs = Inr (css[i := cs])"
    using assms add_loop_replaces [of lower css i "lower (getName cs)" cs]
    by (simp add: addColorSpace_def distinct_names_def Let_def)
next
  fix cs :: "'s ColorSpace" and i
  show "length (css[i := cs]) = length css"
    by simp
qed

theorem names_stay_distinct_witness:
  "distinct_names ascii_lower
     [\<lparr>getName = ''cs1'', settings = 1 :: nat\<rparr>, \<lparr>getName = ''cs2'', settings = 2\<rparr>] \<and>
   addColorSpace ascii_lower
       [\<lparr>getName = ''cs1'', settings = 1 :: nat\<rparr>, \<lparr>getName = ''cs2'', settings = 2\<rparr>]
       \<lparr>getName = ''CS2'', settings = 7\<rparr>
     = Inr [\<lparr>getName = ''cs1'', settings = 1\<rparr>, \<lparr>getName = ''CS2'', settings = 7\<rparr>] \<and>
   distinct_names ascii_lower
     [\<lparr>getName = ''cs1'', settings = 1 :: nat\<rparr>, \<lparr>getName = ''CS2'', settings = 7\<rparr>] \<and>
   distinct_names ascii_lower (fst (addColorSpaces ascii_lower
       [\<lparr>getName = ''cs1'', settings = 1 :: nat\<rparr>, \<lparr>getName = ''cs2'', settings = 2\<rparr>]
       [\<lparr>getName = ''Cs1'', settings = 3\<rparr>, \<lparr>getName = ''cs3'', settings = 4\<rparr>])) \<and>
   distinct_names ascii_lower (removeColorSpace ascii_lower
       [\<lparr>getName = ''cs1'', settings = 1 :: nat\<rparr>, \<lparr>getName = ''cs2'', settings = 2\<rparr>] ''CS1'')"
proof -
  let ?css = "[\<lparr>getName = ''cs1'', settings = 1 :: nat\<rparr>, \<lparr>getName = ''cs2'', settings = 2\<rparr>]"
  have d: "distinct_names ascii_lower ?css"
    by (simp add: distinct_names_def ascii_lower_def ascii_tolower_def)
  have i: "(1 :: nat) < length ?css \<and>
      ascii_lower (getName \<lparr>getName = ''CS2'', settings = 7 :: nat\<rparr>) \<noteq> [] \<and>
      ascii_lower (getName (?css ! 1))
        = ascii_lower (getName \<lparr>getName = ''CS2'', settings = 7 :: nat\<rparr>)"
    by (simp add: ascii_lower_def ascii_tolower_def)
  note all = names_stay_distinct [OF d]
  from all i have "addColorSpace ascii_lower ?css \<lparr>getName = ''CS2'', settings = 7\<rparr>
      = Inr (?css[1 := \<lparr>getName = ''CS2'', settings = 7\<rparr>])"
    by blast
  moreover from all this
  have "distinct_names ascii_lower (?css[1 := \<lparr>getName = ''CS2'', settings = 7\<rparr>])"
    by blast
  moreover from all have "distinct_names ascii_lower (fst (addColorSpaces ascii_lower ?css
      [\<lparr>getName = ''Cs1'', settings = 3\<rparr>, \<lparr>getName = ''cs3'', settings = 4\<rparr>]))"
    by blast
  moreover from all have "distinct_names ascii_lower (removeColorSpace ascii_lower ?css ''CS1'')"
    by blast
  ultimately show ?thesis
    using d by simp
qed

end
